theory Spec2Isabelle
  imports Complex_Main
begin

section \<open>Tick-to-bar streaming aggregation (src/main.py)\<close>

text \<open>
  A shallow embedding of the aggregation engine of \<^verbatim>\<open>src/main.py\<close>.

  \<^item> An instant is an \<^typ>\<open>int\<close>: microseconds since the Unix epoch (the Polars column
    type \<^verbatim>\<open>Datetime(time_unit="us", time_zone="UTC")\<close>); instants before 1970 are negative.
    The instants of a Python \<^verbatim>\<open>datetime\<close> are those of the years 1 to 9999
    (\<open>is_datetime\<close>).
  \<^item> A price is a \<^typ>\<open>real\<close>: a finite \<^verbatim>\<open>Float64\<close>. The program only compares and selects
    prices (first, last, max, min); it never computes with them after sanitizing.
  \<^item> A Python \<^verbatim>\<open>str\<close> of characters below U+0100 is a \<^typ>\<open>string\<close>: a \<^typ>\<open>char\<close> is the
    code point of its character. Rule strings with other characters are not covered.
  \<^item> A raised exception is the \<open>Inl\<close> branch of a result \<open>error + 'a\<close>.
  \<^item> \<^verbatim>\<open>DataFrame.sort\<close> is modelled as the stable \<^const>\<open>sort_key\<close>.
\<close>

subsection \<open>Exceptions\<close>

datatype error =
    ValueError string
  | KeyError string
  | ZeroDivisionError
  | AttributeError
  | OSError
  | OverflowError
  | ComputeError string
  | InvalidOperationError string
  | SchemaError

subsection \<open>Python strings and integers\<close>

definition is_space :: "char \<Rightarrow> bool" where
  \<comment> \<open>the whitespace of \<^verbatim>\<open>str.strip\<close> and of the regex class \<^verbatim>\<open>\s\<close> below U+0100:
      TAB, LF, VT, FF, CR, the separators 0x1C..0x1F, the blank, and the Unicode
      whitespace NEL (U+0085) and NO-BREAK SPACE (U+00A0)\<close>
  "is_space c = (c \<in> set [CHR 0x09, CHR 0x0A, CHR 0x0B, CHR 0x0C, CHR 0x0D,
                           CHR 0x1C, CHR 0x1D, CHR 0x1E, CHR 0x1F, CHR 0x20,
                           CHR 0x85, CHR 0xA0])"

definition is_digit :: "char \<Rightarrow> bool" where
  \<comment> \<open>the regex class \<^verbatim>\<open>\d\<close> below U+0100: the Unicode decimal digits there are the
      ASCII digits\<close>
  "is_digit c = (c \<in> set ''0123456789'')"

definition is_upper :: "char \<Rightarrow> bool" where
  \<comment> \<open>the regex class \<^verbatim>\<open>[A-Z]\<close>\<close>
  "is_upper c = (c \<in> set ''ABCDEFGHIJKLMNOPQRSTUVWXYZ'')"

definition strip :: "string \<Rightarrow> string" where
  \<comment> \<open>\<^verbatim>\<open>str.strip()\<close>\<close>
  "strip s = rev (dropWhile is_space (rev (dropWhile is_space s)))"

definition digit_char :: "nat \<Rightarrow> char" where
  "digit_char d = ''0123456789'' ! d"

definition digit_val :: "char \<Rightarrow> int" where
  \<comment> \<open>the value of a decimal digit: its code point less that of the digit zero\<close>
  "digit_val c = of_char c - 48"

definition int_of_digits :: "string \<Rightarrow> int" where
  \<comment> \<open>\<^verbatim>\<open>int(ds)\<close> for a string of decimal digits\<close>
  "int_of_digits ds = fold (\<lambda>c n. 10 * n + digit_val c) ds 0"

fun str_nat :: "nat \<Rightarrow> string" where
  "str_nat n = (if n < 10 then [digit_char n] else str_nat (n div 10) @ [digit_char (n mod 10)])"

definition str_int :: "int \<Rightarrow> string" where
  \<comment> \<open>\<^verbatim>\<open>str(i)\<close> for a Python int\<close>
  "str_int i = (if i < 0 then CHR ''-'' # str_nat (nat (- i)) else str_nat (nat i))"

subsection \<open>\<^verbatim>\<open>filter_symbol_in_files\<close>\<close>

definition filter_symbol_in_files :: "string \<Rightarrow> int \<Rightarrow> int \<Rightarrow> string option" where
  "filter_symbol_in_files symbol years month =
     (if month \<in> {12} then Some (symbol @ ''H'' @ [last (str_int (years + 1))])
      else if month \<in> {1, 2, 3} then Some (symbol @ ''H'' @ [last (str_int years)])
      else if month \<in> {4, 5, 6} then Some (symbol @ ''M'' @ [last (str_int years)])
      else if month \<in> {7, 8, 9} then Some (symbol @ ''U'' @ [last (str_int years)])
      else if month \<in> {10, 11} then Some (symbol @ ''Z'' @ [last (str_int years)])
      else None)"

subsection \<open>\<^verbatim>\<open>rule_to_seconds\<close>\<close>

definition rule_to_seconds :: "string \<Rightarrow> error + int" where
  \<comment> \<open>\<^verbatim>\<open>re.fullmatch(r"(\d+)\s*s", rule.strip())\<close>: the greedy digits, then the greedy
      blanks, then exactly the letter s. No shorter choice of either run can match, since
      the character after a run is of the run's class or ends it.\<close>
  "rule_to_seconds rule =
     (let s = strip rule;
          ds = takeWhile is_digit s;
          rest = dropWhile is_space (dropWhile is_digit s)
      in if ds \<noteq> [] \<and> rest = ''s'' then Inr (int_of_digits ds)
         else Inl (ValueError rule))"

subsection \<open>\<^verbatim>\<open>floor_dt_to_seconds\<close>\<close>

definition datetime_min :: int where
  \<comment> \<open>\<^verbatim>\<open>datetime.min\<close> in UTC, 0001-01-01T00:00:00\<close>
  "datetime_min = - 62135596800000000"

definition datetime_max :: int where
  \<comment> \<open>\<^verbatim>\<open>datetime.max\<close> in UTC, 9999-12-31T23:59:59.999999\<close>
  "datetime_max = 253402300799999999"

definition is_datetime :: "int \<Rightarrow> bool" where
  \<comment> \<open>the instants that a Python \<^verbatim>\<open>datetime\<close> holds\<close>
  "is_datetime t = (datetime_min \<le> t \<and> t \<le> datetime_max)"

fun top_bit :: "nat \<Rightarrow> nat" where
  \<comment> \<open>the largest power of two that is at most \<open>n\<close>, and 0 for 0\<close>
  "top_bit n = (if n < 2 then n else 2 * top_bit (n div 2))"

definition timestamp_int :: "int \<Rightarrow> int" where
  \<comment> \<open>\<^verbatim>\<open>int(dt.timestamp())\<close> for a \<^verbatim>\<open>datetime\<close> with a time zone. \<^verbatim>\<open>timestamp()\<close> is
      the number of microseconds since the epoch divided by \<open>10\<^sup>6\<close> and rounded to the
      nearest double; \<^verbatim>\<open>int\<close> truncates the double toward zero. With \<open>n\<close> whole seconds
      and \<open>k\<close> microseconds in the magnitude, the doubles between \<open>n\<close> and \<open>n + 1\<close> are
      \<open>top_bit n\<close> times 2 to the power -52 apart, so the quotient rounds to \<open>n + 1\<close>
      when it lies at most half of that below it (a tie goes to \<open>n + 1\<close>, whose mantissa
      is even). This happens from 2 to the power 34 seconds on (year 2514), first for
      \<open>k = 999999\<close>.\<close>
  "timestamp_int dt =
     (let a = \<bar>dt\<bar>; n = a div 1000000; k = a mod 1000000;
          m = (if k \<noteq> 0 \<and> (1000000 - k) * 2 ^ 53 \<le> 1000000 * int (top_bit (nat n))
               then n + 1 else n)
      in if 0 \<le> dt then m else - m)"

definition fromtimestamp :: "int \<Rightarrow> error + int" where
  \<comment> \<open>\<^verbatim>\<open>datetime.fromtimestamp(flo, tz=timezone.utc)\<close> for an \<^verbatim>\<open>int\<close>, as an instant.
      Outside the years 1 to 9999 it raises: ValueError (year out of range) while the C
      library still converts the time, OSError where \<^verbatim>\<open>gmtime\<close> fails, OverflowError
      beyond \<^verbatim>\<open>time_t\<close>. The last two bounds are those of Linux with a 64-bit
      \<^verbatim>\<open>time_t\<close>.\<close>
  "fromtimestamp flo =
     (if - 62135596800 \<le> flo \<and> flo \<le> 253402300799 then Inr (flo * 1000000)
      else if - 67768040609740800 \<le> flo \<and> flo \<le> 67768036191676799
        then Inl (ValueError ''year is out of range'')
      else if - 9223372036854775808 \<le> flo \<and> flo \<le> 9223372036854775807 then Inl OSError
      else Inl OverflowError)"

definition floor_dt_to_seconds :: "int \<Rightarrow> int \<Rightarrow> error + int" where
  \<comment> \<open>\<^verbatim>\<open>flo = (int(ts) // sec) * sec\<close>, returned as an instant. Python's \<^verbatim>\<open>//\<close> is
      floor division, as \<open>div\<close> on \<^typ>\<open>int\<close> is. The argument is a \<^verbatim>\<open>datetime\<close>:
      an instant of the years 1 to 9999.\<close>
  "floor_dt_to_seconds dt sec =
     (if sec = 0 then Inl ZeroDivisionError
      else fromtimestamp ((timestamp_int dt div sec) * sec))"

definition floor_epoch_spec :: "int \<Rightarrow> int \<Rightarrow> int" where
  \<comment> \<open>The specification's watermark, in its own words:
      \<^verbatim>\<open>floor(epoch_seconds(dt) / window_seconds) * window_seconds\<close> as an instant,
      with \<^verbatim>\<open>epoch_seconds\<close> the fractional, possibly negative, number of seconds.\<close>
  "floor_epoch_spec dt sec =
     \<lfloor>(real_of_int dt / 1000000) / real_of_int sec\<rfloor> * sec * 1000000"

subsection \<open>Frames\<close>

text \<open>
  A canonical tick frame (columns \<^verbatim>\<open>datetime\<close>, \<^verbatim>\<open>mid\<close>, no nulls) is a list of ticks in
  row order. A bar frame carries its schema as well, since \<^verbatim>\<open>merge_data\<close> builds one by
  hand.
\<close>

record row =
  datetime :: int

record tick = row +
  mid :: real

record bar = row +
  "open" :: real
  high :: real
  low :: real
  close :: real
  volume :: nat

datatype dtype = Datetime_us_UTC | Float64 | Int64 | UInt32

record bar_frame =
  schema :: "(string \<times> dtype) list"
  rows :: "bar list"

record ('t, 'p) raw_row =
  ts_event :: 't
  price :: 'p
  symbol :: "string option"

record ('t, 'p) raw_frame =
  has_symbol :: bool
  raw_rows :: "('t, 'p) raw_row list"

record out_row =
  datetime_cell :: "int option"
  mid_cell :: "real option"
  symbol_cell :: "string option"

record out_frame =
  out_has_symbol :: bool
  out_rows :: "out_row list"

subsection \<open>\<^verbatim>\<open>sanity_check_tick_data\<close> and \<^verbatim>\<open>clean_tick_batch\<close>\<close>

definition drop_nulls_datetime_mid :: "out_row list \<Rightarrow> (tick \<times> string option) list" where
  \<comment> \<open>\<^verbatim>\<open>out.drop_nulls(["datetime", "mid"])\<close>; the symbol cell stays beside the tick\<close>
  "drop_nulls_datetime_mid rs =
     List.map_filter
       (\<lambda>r. case (datetime_cell r, mid_cell r) of
                (Some d, Some m) \<Rightarrow> Some (\<lparr>datetime = d, mid = m\<rparr>, symbol_cell r)
              | _ \<Rightarrow> None) rs"

definition sanity_check_tick_data ::
  "out_frame \<Rightarrow> string option \<Rightarrow> real option \<Rightarrow> real option \<Rightarrow> tick list" where
  \<comment> \<open>A comparison with a null cell, or with the filter \<^verbatim>\<open>None\<close>, is null and the row is
      filtered out.\<close>
  "sanity_check_tick_data out symbol_filter sanity_min_price sanity_max_price =
     (let out1 = drop_nulls_datetime_mid (out_rows out);
          out2 = (if out_has_symbol out
                  then filter (\<lambda>(t, s). s \<noteq> None \<and> s = symbol_filter) out1 else out1);
          out3 = map fst out2;
          out4 = (case sanity_min_price of None \<Rightarrow> out3
                  | Some lo \<Rightarrow> filter (\<lambda>t. mid t \<ge> lo) out3);
          out5 = (case sanity_max_price of None \<Rightarrow> out4
                  | Some hi \<Rightarrow> filter (\<lambda>t. mid t \<le> hi) out4)
      in sort_key datetime out5)"

definition clean_tick_batch ::
  "('t \<Rightarrow> int option) \<Rightarrow> ('p \<Rightarrow> real option) \<Rightarrow> ('t, 'p) raw_frame \<Rightarrow>
   string option \<Rightarrow> real option \<Rightarrow> real option \<Rightarrow> tick list" where
  \<comment> \<open>The two Polars conversions are parameters, each \<open>None\<close> (null) where the
      conversion fails. \<open>to_mid\<close> is \<^verbatim>\<open>cast(pl.Float64, strict=False) * 1e-9\<close> on one cell.
      \<open>strptime\<close> is
      \<^verbatim>\<open>str.strptime(pl.Datetime, format="%Y-%m-%dT%H:%M:%S%Z", strict=False)\<close> with
      \<^verbatim>\<open>.dt.convert_time_zone("UTC")\<close> on one cell: the format has no directive for a
      fraction of a second, so what it reads is a whole second, and \<open>strptime\<close> gives
      that second as epoch seconds; the instant of the row is the start of it.\<close>
  "clean_tick_batch strptime to_mid df_pl symbol_filter sanity_min_price sanity_max_price =
     (let out = \<lparr>out_has_symbol = has_symbol df_pl,
                 out_rows = map (\<lambda>r. \<lparr>datetime_cell =
                                         map_option (\<lambda>s. s * 1000000) (strptime (ts_event r)),
                                       mid_cell = to_mid (price r),
                                       symbol_cell = symbol r\<rparr>) (raw_rows df_pl)\<rparr>
      in sanity_check_tick_data out symbol_filter sanity_min_price sanity_max_price)"

subsection \<open>\<^verbatim>\<open>bars_from_ticks\<close>\<close>

definition polars_duration :: "string \<Rightarrow> int option" where
  \<comment> \<open>Polars' reading of the duration string given as \<^verbatim>\<open>every\<close> and \<^verbatim>\<open>period\<close>, in
      microseconds, for the whole-seconds strings \<^verbatim>\<open><N>s\<close> that the program
      configures. It follows Polars where the length fits its 64-bit count of
      nanoseconds (\<open>fits_duration\<close>); a longer one wraps there. The other units of
      Polars' duration language are not modelled: \<open>None\<close> stands for every other
      string, of which Polars reads some.\<close>
  "polars_duration rule =
     (let ds = takeWhile is_digit rule
      in if ds \<noteq> [] \<and> dropWhile is_digit rule = ''s''
         then Some (int_of_digits ds * 1000000) else None)"

definition fits_duration :: "int \<Rightarrow> bool" where
  \<comment> \<open>a window length in microseconds that Polars holds: its nanoseconds fit a signed
      64-bit integer\<close>
  "fits_duration every = (every * 1000 < 2 ^ 63)"

definition window_start :: "int \<Rightarrow> int \<Rightarrow> int" where
  \<comment> \<open>the lower boundary of the window of length \<open>every\<close> that holds instant \<open>t\<close>;
      windows are aligned to the epoch, and \<open>div\<close> rounds down also before 1970\<close>
  "window_start every t = (t div every) * every"

fun group_by_dynamic :: "int \<Rightarrow> tick list \<Rightarrow> (int \<times> tick list) list" where
  \<comment> \<open>\<^verbatim>\<open>group_by_dynamic(every=rule, period=rule, closed="left", label="left")\<close> on a
      frame sorted by the index column: each run of rows in one window is a group,
      labelled by the window's lower boundary; windows without rows give no group.\<close>
  "group_by_dynamic every [] = []"
| "group_by_dynamic every (t # ts) =
     (let k = window_start every (datetime t)
      in case group_by_dynamic every ts of
           [] \<Rightarrow> [(k, [t])]
         | (k', g) # gs \<Rightarrow> if k' = k then (k, t # g) # gs else (k, [t]) # (k', g) # gs)"

fun agg :: "int \<times> tick list \<Rightarrow> bar option" where
  \<comment> \<open>the five aggregations of one group, followed by
      \<^verbatim>\<open>drop_nulls(["open", "high", "low", "close"])\<close>: they are null on a group without
      rows only\<close>
  "agg (k, []) = None"
| "agg (k, t # ts) =
     Some \<lparr>datetime = k,
           open = mid t,
           high = fold max (map mid ts) (mid t),
           low = fold min (map mid ts) (mid t),
           close = mid (last (t # ts)),
           volume = length (t # ts)\<rparr>"

definition window_bars :: "int \<Rightarrow> tick list \<Rightarrow> bar list" where
  \<comment> \<open>\<^verbatim>\<open>group_by_dynamic(...).agg(...).drop_nulls(...)\<close>\<close>
  "window_bars every ticks = List.map_filter agg (group_by_dynamic every ticks)"

definition bars_schema :: "(string \<times> dtype) list" where
  \<comment> \<open>the index column keeps its type, the price aggregates are \<^verbatim>\<open>Float64\<close> as
      \<^verbatim>\<open>mid\<close> is, and \<^verbatim>\<open>pl.len()\<close> is of Polars' index type \<^verbatim>\<open>UInt32\<close>\<close>
  "bars_schema =
     [(''datetime'', Datetime_us_UTC), (''open'', Float64), (''high'', Float64),
      (''low'', Float64), (''close'', Float64), (''volume'', UInt32)]"

definition bars_from_ticks :: "tick list \<Rightarrow> string \<Rightarrow> error + bar_frame" where
  \<comment> \<open>Polars raises on a duration it cannot read (InvalidOperationError) or that is
      not positive, and on an index column that is not sorted (InvalidOperationError).\<close>
  "bars_from_ticks ticks rule =
     (case polars_duration rule of
        None \<Rightarrow> Inl (InvalidOperationError rule)
      | Some every \<Rightarrow>
          if every \<le> 0 then Inl (ComputeError rule)
          else if \<not> sorted (map datetime ticks) then Inl (InvalidOperationError ''datetime'')
          else Inr \<lparr>schema = bars_schema,
                    rows = sort_key datetime (window_bars every ticks)\<rparr>)"

subsection \<open>\<^verbatim>\<open>loop_through_files\<close>\<close>

record ('t, 'p) LoopThroughFilesInputData =
  reader :: "('t, 'p) raw_frame list"
  rules :: "string list"
  rule_secs :: "string \<rightharpoonup> int"
  symbol_filter :: "string option"
  buffers :: "string \<rightharpoonup> tick list"
  bars_out :: "string \<rightharpoonup> bar_frame list"
  sanity_min_price :: "real option"
  sanity_max_price :: "real option"

text \<open>
  The reader is the list of the batches it has not handed out yet:
  \<^verbatim>\<open>next_batches(1)\<close> takes the first, and an empty list is the end of the input.
\<close>

definition getitem :: "(string \<rightharpoonup> 'a) \<Rightarrow> string \<Rightarrow> error + 'a" where
  \<comment> \<open>\<^verbatim>\<open>d[k]\<close> on a dict\<close>
  "getitem d k = (case d k of None \<Rightarrow> Inl (KeyError k) | Some v \<Rightarrow> Inr v)"

fun column_max :: "int list \<Rightarrow> int option" where
  \<comment> \<open>\<^verbatim>\<open>select(pl.col("datetime").max()).item()\<close>: \<^verbatim>\<open>None\<close> on a frame without rows\<close>
  "column_max [] = None"
| "column_max (x # xs) = Some (fold max xs x)"

definition append_bars ::
  "('t, 'p) LoopThroughFilesInputData \<Rightarrow> string \<Rightarrow> tick list \<Rightarrow>
   error + ('t, 'p) LoopThroughFilesInputData" where
  \<comment> \<open>\<^verbatim>\<open>b = bars_from_ticks(ticks, r); if b.height: data.bars_out[r].append(b)\<close>\<close>
  "append_bars data r ticks =
     (case bars_from_ticks ticks r of
        Inl e \<Rightarrow> Inl e
      | Inr b \<Rightarrow>
          if rows b \<noteq> [] then
            (case getitem (bars_out data) r of
               Inl e \<Rightarrow> Inl e
             | Inr bs \<Rightarrow> Inr (data\<lparr>bars_out := (bars_out data)(r \<mapsto> bs @ [b])\<rparr>))
          else Inr data)"

definition ingest ::
  "tick list \<Rightarrow> ('t, 'p) LoopThroughFilesInputData \<Rightarrow> string \<Rightarrow>
   error + ('t, 'p) LoopThroughFilesInputData" where
  \<comment> \<open>the body of \<^verbatim>\<open>for r in data.rules\<close> inside the batch loop (lines 40 to 58)\<close>
  "ingest ticks data r =
     (case getitem (buffers data) r of
        Inl e \<Rightarrow> Inl e
      | Inr buf \<Rightarrow>
          let combined = sort_key datetime (buf @ ticks) in
          (case column_max (map datetime combined) of
             None \<Rightarrow> Inr (data\<lparr>buffers := (buffers data)(r \<mapsto> combined)\<rparr>)
           | Some last_dt \<Rightarrow>
               (case getitem (rule_secs data) r of
                  Inl e \<Rightarrow> Inl e
                | Inr sec \<Rightarrow>
                    (case floor_dt_to_seconds last_dt sec of
                       Inl e \<Rightarrow> Inl e
                     | Inr cutoff \<Rightarrow>
                         let to_finalize = filter (\<lambda>t. datetime t < cutoff) combined;
                             to_keep = filter (\<lambda>t. datetime t \<ge> cutoff) combined
                         in (case (if to_finalize \<noteq> [] then append_bars data r to_finalize
                                   else Inr data) of
                               Inl e \<Rightarrow> Inl e
                             | Inr data' \<Rightarrow>
                                 Inr (data'\<lparr>buffers := (buffers data')(r \<mapsto> to_keep)\<rparr>))))))"

definition flush ::
  "('t, 'p) LoopThroughFilesInputData \<Rightarrow> string \<Rightarrow>
   error + ('t, 'p) LoopThroughFilesInputData" where
  \<comment> \<open>the body of the last \<^verbatim>\<open>for r in data.rules\<close> (lines 61 to 65)\<close>
  "flush data r =
     (case getitem (buffers data) r of
        Inl e \<Rightarrow> Inl e
      | Inr buf \<Rightarrow> if buf \<noteq> [] then append_bars data r buf else Inr data)"

fun for_rules ::
  "('d \<Rightarrow> string \<Rightarrow> error + 'd) \<Rightarrow> string list \<Rightarrow> 'd \<Rightarrow> error + 'd" where
  \<comment> \<open>\<^verbatim>\<open>for r in rules: body\<close>, leaving at the first exception\<close>
  "for_rules body [] data = Inr data"
| "for_rules body (r # rs) data =
     (case body data r of Inl e \<Rightarrow> Inl e | Inr data' \<Rightarrow> for_rules body rs data')"

fun while_batches ::
  "('t \<Rightarrow> int option) \<Rightarrow> ('p \<Rightarrow> real option) \<Rightarrow> ('t, 'p) raw_frame list \<Rightarrow>
   ('t, 'p) LoopThroughFilesInputData \<Rightarrow> error + ('t, 'p) LoopThroughFilesInputData" where
  \<comment> \<open>the \<^verbatim>\<open>while True\<close> loop, by recursion on the batches the reader still holds\<close>
  "while_batches strptime to_mid [] data = Inr (data\<lparr>reader := []\<rparr>)"
| "while_batches strptime to_mid (raw # batches) data =
     (let data1 = data\<lparr>reader := batches\<rparr>;
          ticks = clean_tick_batch strptime to_mid raw (symbol_filter data1)
                    (sanity_min_price data1) (sanity_max_price data1)
      in if ticks = [] then while_batches strptime to_mid batches data1
         else (case for_rules (ingest ticks) (rules data1) data1 of
                 Inl e \<Rightarrow> Inl e
               | Inr data2 \<Rightarrow> while_batches strptime to_mid batches data2))"

definition loop_through_files ::
  "('t \<Rightarrow> int option) \<Rightarrow> ('p \<Rightarrow> real option) \<Rightarrow>
   ('t, 'p) LoopThroughFilesInputData \<Rightarrow> error + ('t, 'p) LoopThroughFilesInputData" where
  \<comment> \<open>returns the record as the call leaves it (Python mutates it in place)\<close>
  "loop_through_files strptime to_mid data =
     (case while_batches strptime to_mid (reader data) data of
        Inl e \<Rightarrow> Inl e
      | Inr data' \<Rightarrow> for_rules flush (rules data') data')"

subsection \<open>\<^verbatim>\<open>merge_data\<close>\<close>

fun concat_vertical :: "bar_frame list \<Rightarrow> error + bar_frame" where
  \<comment> \<open>\<^verbatim>\<open>pl.concat(frames, how="vertical")\<close>: the schemas must agree\<close>
  "concat_vertical [] = Inl (ValueError ''cannot concat empty list'')"
| "concat_vertical (f # fs) =
     (if list_all (\<lambda>g. schema g = schema f) fs
      then Inr \<lparr>schema = schema f, rows = concat (map rows (f # fs))\<rparr>
      else Inl SchemaError)"

definition sort_datetime :: "bar_frame \<Rightarrow> bar_frame" where
  \<comment> \<open>\<^verbatim>\<open>.sort("datetime")\<close>\<close>
  "sort_datetime f = f\<lparr>rows := sort_key datetime (rows f)\<rparr>"

fun unique_keep_last :: "bar list \<Rightarrow> bar list" where
  \<comment> \<open>\<^verbatim>\<open>unique(subset=["datetime"], keep="last")\<close>: a row stays when no later row has
      its key. Polars leaves the order of the result open; the program sorts it next.\<close>
  "unique_keep_last [] = []"
| "unique_keep_last (b # bs) =
     (if datetime b \<in> set (map datetime bs) then unique_keep_last bs
      else b # unique_keep_last bs)"

definition empty_bars :: bar_frame where
  \<comment> \<open>the \<^verbatim>\<open>pl.DataFrame(schema={...})\<close> of lines 164 to 173\<close>
  "empty_bars =
     \<lparr>schema = [(''datetime'', Datetime_us_UTC), (''open'', Float64), (''high'', Float64),
                (''low'', Float64), (''close'', Float64), (''volume'', Int64)],
      rows = []\<rparr>"

fun merge_rules ::
  "(string \<rightharpoonup> bar_frame list) \<Rightarrow> string list \<Rightarrow> (string \<rightharpoonup> bar_frame) \<Rightarrow>
   error + (string \<rightharpoonup> bar_frame)" where
  \<comment> \<open>the loop of \<^verbatim>\<open>merge_data\<close> over \<^verbatim>\<open>rules\<close>, with \<^verbatim>\<open>bars_out\<close> as \<open>bars\<close> and
      \<^verbatim>\<open>final_bars\<close> as accumulator\<close>
  "merge_rules bars [] final_bars = Inr final_bars"
| "merge_rules bars (r # rs) final_bars =
     (case getitem bars r of
        Inl e \<Rightarrow> Inl e
      | Inr frames \<Rightarrow>
          if frames \<noteq> [] then
            (case concat_vertical frames of
               Inl e \<Rightarrow> Inl e
             | Inr all_bars \<Rightarrow>
                 let all_bars1 = sort_datetime all_bars;
                     all_bars2 = sort_datetime
                                   (all_bars1\<lparr>rows := unique_keep_last (rows all_bars1)\<rparr>)
                 in merge_rules bars rs (final_bars(r \<mapsto> all_bars2)))
          else merge_rules bars rs (final_bars(r \<mapsto> empty_bars)))"

definition merge_data ::
  "(string \<rightharpoonup> bar_frame list) \<Rightarrow> string list \<Rightarrow> error + (string \<rightharpoonup> bar_frame)" where
  "merge_data bars rs = merge_rules bars rs Map.empty"

subsection \<open>\<^verbatim>\<open>build_bars_from_ticks\<close>\<close>

record ('t, 'p) BuildBarsFromTicksOutputData =
  data :: "('t, 'p) raw_frame list"
  file_name :: string
  timeframemap :: "(string \<times> string) list"
  sanity_min_price_in :: "real option"
  sanity_max_price_in :: "real option"

text \<open>
  Field \<open>data\<close> stands for the file at the path \<^verbatim>\<open>data.data\<close>: the batches that
  \<^verbatim>\<open>pl.read_csv_batched\<close> will hand out. The dict \<^verbatim>\<open>timeframemap\<close> is the list of its
  items in insertion order, so that \<^verbatim>\<open>timeframemap.values()\<close> is \<open>map snd\<close>.
\<close>

fun rule_secs_of :: "string list \<Rightarrow> (string \<rightharpoonup> int) \<Rightarrow> error + (string \<rightharpoonup> int)" where
  \<comment> \<open>\<^verbatim>\<open>{r: rule_to_seconds(r) for r in rules}\<close>, leaving at the first exception\<close>
  "rule_secs_of [] acc = Inr acc"
| "rule_secs_of (r # rs) acc =
     (case rule_to_seconds r of
        Inl e \<Rightarrow> Inl e
      | Inr sec \<Rightarrow> rule_secs_of rs (acc(r \<mapsto> sec)))"

definition is_sep :: "char \<Rightarrow> bool" where
  \<comment> \<open>the regex class \<^verbatim>\<open>[-_]\<close>\<close>
  "is_sep c = (c = CHR ''-'' \<or> c = CHR ''_'')"

definition match_file_name :: "string \<Rightarrow> (string \<times> string \<times> string) option" where
  \<comment> \<open>\<^verbatim>\<open>re.search(r'^([A-Z]+)[-_](20\d{2})[-_]?(\d{2})\.csv$', file_name)\<close>: the three
      groups. The letters are taken greedily (a separator is no letter), the optional
      separator is taken when it is there (a separator is no digit), and \<^verbatim>\<open>$\<close> also
      matches before one final newline.\<close>
  "match_file_name s =
     (let symb = takeWhile is_upper s in
      case dropWhile is_upper s of
        sep # c2 # c0 # y1 # y2 # rest \<Rightarrow>
          let rest' = (case rest of [] \<Rightarrow> rest | c # cs \<Rightarrow> if is_sep c then cs else rest) in
          (case rest' of
             m1 # m2 # tail \<Rightarrow>
               if symb \<noteq> [] \<and> is_sep sep \<and> c2 = CHR ''2'' \<and> c0 = CHR ''0'' \<and>
                  is_digit y1 \<and> is_digit y2 \<and> is_digit m1 \<and> is_digit m2 \<and>
                  (tail = ''.csv'' \<or> tail = ''.csv'' @ [CHR 0x0A])
               then Some (symb, [c2, c0, y1, y2], [m1, m2])
               else None
           | _ \<Rightarrow> None)
      | _ \<Rightarrow> None)"

definition build_bars_from_ticks ::
  "('t \<Rightarrow> int option) \<Rightarrow> ('p \<Rightarrow> real option) \<Rightarrow>
   ('t, 'p) BuildBarsFromTicksOutputData \<Rightarrow> error + (string \<rightharpoonup> bar_frame)" where
  \<comment> \<open>in the order of the source: the rules are read first, then the reader is made, then
      the file name is matched (\<^verbatim>\<open>m.group\<close> on \<^verbatim>\<open>None\<close> is an AttributeError), and
      only \<^verbatim>\<open>loop_through_files\<close> pulls batches\<close>
  "build_bars_from_ticks strptime to_mid input =
     (let rs = map snd (timeframemap input) in
      case rule_secs_of rs Map.empty of
        Inl e \<Rightarrow> Inl e
      | Inr secs \<Rightarrow>
          let bars0 = map_of (map (\<lambda>r. (r, [])) rs);
              buffers0 = map_of (map (\<lambda>r. (r, [])) rs);
              reader0 = data input
          in (case match_file_name (file_name input) of
                None \<Rightarrow> Inl AttributeError
              | Some (symb, year, month) \<Rightarrow>
                  let filter0 =
                        filter_symbol_in_files symb (int_of_digits year) (int_of_digits month);
                      loop = \<lparr>reader = reader0, rules = rs, rule_secs = secs,
                              symbol_filter = filter0, buffers = buffers0,
                              bars_out = bars0,
                              sanity_min_price = sanity_min_price_in input,
                              sanity_max_price = sanity_max_price_in input\<rparr>
                  in (case loop_through_files strptime to_mid loop of
                        Inl e \<Rightarrow> Inl e
                      | Inr loop' \<Rightarrow> merge_data (bars_out loop') rs)))"

subsection \<open>Notions of the specification\<close>

definition contract_code :: "int \<Rightarrow> string" where
  \<comment> \<open>the contract-month code of a calendar month 1 to 12, as the specification lists it\<close>
  "contract_code month =
     (if month = 12 \<or> month \<le> 3 then ''H'' else if month \<le> 6 then ''M''
      else if month \<le> 9 then ''U'' else ''Z'')"

definition whole_seconds_form :: "string \<Rightarrow> bool" where
  \<comment> \<open>the specification's form \<^verbatim>\<open><N>s\<close>: digits followed by the letter s\<close>
  "whole_seconds_form rule =
     (rule \<noteq> [] \<and> last rule = CHR ''s'' \<and> butlast rule \<noteq> [] \<and>
      list_all is_digit (butlast rule))"

definition lenient_seconds_form :: "string \<Rightarrow> bool" where
  \<comment> \<open>the form with blanks allowed around the string and before the letter s\<close>
  "lenient_seconds_form rule =
     (let s = strip rule
      in takeWhile is_digit s \<noteq> [] \<and> dropWhile is_space (dropWhile is_digit s) = ''s'')"

subsection \<open>Runs on canonical ticks\<close>

definition canonical_batch :: "(int \<times> real) list \<Rightarrow> (int, real) raw_frame" where
  \<comment> \<open>a batch without symbol column whose cells are read by \<open>Some\<close>: each row gives
      the epoch second and the price of its tick\<close>
  "canonical_batch xs =
     \<lparr>has_symbol = False,
      raw_rows = map (\<lambda>(t, p). \<lparr>ts_event = t, price = p, symbol = None\<rparr>) xs\<rparr>"

definition run_input ::
  "(int \<times> real) list list \<Rightarrow> string \<Rightarrow> (int, real) BuildBarsFromTicksOutputData" where
  \<comment> \<open>a run on the given batches for one rule, without price bounds\<close>
  "run_input batches rule =
     \<lparr>data = map canonical_batch batches, file_name = ''NQ_2020_03.csv'',
      timeframemap = [(''1m'', rule)],
      sanity_min_price_in = None, sanity_max_price_in = None\<rparr>"

definition loop_input ::
  "(int \<times> real) list list \<Rightarrow> string \<Rightarrow> int \<Rightarrow> (int, real) LoopThroughFilesInputData" where
  \<comment> \<open>the record that \<^verbatim>\<open>build_bars_from_ticks\<close> hands to the loop, for one rule\<close>
  "loop_input batches rule sec =
     \<lparr>reader = map canonical_batch batches, rules = [rule], rule_secs = [rule \<mapsto> sec],
      symbol_filter = Some ''NQH0'', buffers = [rule \<mapsto> []], bars_out = [rule \<mapsto> []],
      sanity_min_price = None, sanity_max_price = None\<rparr>"

definition example_rows :: "int \<Rightarrow> (int \<times> real) list" where
  \<comment> \<open>the rows of the specification's example in its order, on the day \<open>day\<close> after the
      epoch, each with its instant in microseconds and its price: 09:00:00.100,
      09:00:00.900, 09:00:01.200 and 09:01:05.000\<close>
  "example_rows day =
     [(day * 86400000000 + 32400100000, 100),
      (day * 86400000000 + 32400900000, 101),
      (day * 86400000000 + 32401200000, 99.5),
      (day * 86400000000 + 32465000000, 102)]"

definition whole_second :: "int \<Rightarrow> int" where
  \<comment> \<open>the epoch second in which an instant lies\<close>
  "whole_second t = t div 1000000"

definition four_ticks :: "int \<Rightarrow> tick list" where
  \<comment> \<open>the rows of the example as the sanitizer reads them, each at the start of its
      second: 09:00:00, 09:00:00, 09:00:01 and 09:01:05\<close>
  "four_ticks day =
     map (\<lambda>(t, p). \<lparr>datetime = whole_second t * 1000000, mid = p\<rparr>) (example_rows day)"

definition two_bars :: "int \<Rightarrow> bar list" where
  \<comment> \<open>the bars of the example: the windows that start at 09:00:00 and 09:01:00\<close>
  "two_bars day =
     [\<lparr>datetime = day * 86400000000 + 32400000000,
       open = 100, high = 101, low = 99.5, close = 99.5, volume = 3\<rparr>,
      \<lparr>datetime = day * 86400000000 + 32460000000,
       open = 102, high = 102, low = 102, close = 102, volume = 1\<rparr>]"

subsection \<open>The state of one rule during a run\<close>

definition config ::
  "('t, 'p) LoopThroughFilesInputData \<Rightarrow>
   string list \<times> (string \<rightharpoonup> int) \<times> string option \<times> real option \<times> real option" where
  \<comment> \<open>the fields that the loop only reads\<close>
  "config d = (rules d, rule_secs d, symbol_filter d, sanity_min_price d, sanity_max_price d)"

definition configured :: "tick list \<Rightarrow> string \<Rightarrow> int option \<Rightarrow> int \<Rightarrow> bool" where
  \<comment> \<open>the rule is configured with \<open>sec\<close> seconds, Polars reads it as the same positive
      length, one that fits its duration, and every tick of the run and the start of
      its window are instants of a \<^verbatim>\<open>datetime\<close>\<close>
  "configured ticks r secs sec =
     (secs = Some sec \<and> 0 < sec \<and> fits_duration (sec * 1000000) \<and>
      polars_duration r = Some (sec * 1000000) \<and>
      list_all (\<lambda>t. is_datetime (datetime t) \<and>
                     is_datetime (window_start (sec * 1000000) (datetime t))) ticks)"

definition watermark :: "int \<Rightarrow> tick list \<Rightarrow> int" where
  \<comment> \<open>the start of the window of the last tick seen, for ticks seen in timestamp order\<close>
  "watermark e seen = (if seen = [] then 0 else window_start e (datetime (last seen)))"

definition streamed ::
  "tick list \<Rightarrow> tick list \<Rightarrow> string \<Rightarrow> int option \<Rightarrow> tick list option \<Rightarrow>
   bar_frame list option \<Rightarrow> bool" where
  \<comment> \<open>the state of one rule after the ticks \<open>seen\<close> of the run's ticks \<open>run\<close> have been
      ingested in order: the buffer holds the ticks from the watermark on, the
      accumulated frames hold the bars of the ticks before it\<close>
  "streamed run seen r secs buf out =
     (\<exists>sec B F. configured run r secs sec \<and>
        buf = Some B \<and> out = Some F \<and>
        B = filter (\<lambda>t. watermark (sec * 1000000) seen \<le> datetime t) seen \<and>
        list_all (\<lambda>f. schema f = bars_schema \<and> rows f \<noteq> []) F \<and>
        concat (map rows F) =
          window_bars (sec * 1000000)
            (filter (\<lambda>t. datetime t < watermark (sec * 1000000) seen) seen))"

definition flushed ::
  "tick list \<Rightarrow> string \<Rightarrow> int option \<Rightarrow> tick list option \<Rightarrow> bar_frame list option \<Rightarrow> bool" where
  \<comment> \<open>the state of one rule after the final flush: the frames hold the bars of all ticks\<close>
  "flushed seen r secs buf out =
     (\<exists>sec F. configured seen r secs sec \<and>
        out = Some F \<and> list_all (\<lambda>f. schema f = bars_schema \<and> rows f \<noteq> []) F \<and>
        concat (map rows F) = window_bars (sec * 1000000) seen)"

definition buffered ::
  "tick list \<Rightarrow> tick list \<Rightarrow> string \<Rightarrow> int option \<Rightarrow> tick list option \<Rightarrow>
   bar_frame list option \<Rightarrow> bool" where
  \<comment> \<open>the state of one rule after the ticks \<open>seen\<close> of the run's ticks \<open>run\<close> have been
      ingested in any order: the buffer is sorted, holds the latest tick seen, and all
      of its ticks lie in the window of that tick\<close>
  "buffered run seen r secs buf out =
     (\<exists>sec B F. configured run r secs sec \<and>
        buf = Some B \<and> out = Some F \<and> sorted (map datetime B) \<and>
        (if seen = [] then B = []
         else B \<noteq> [] \<and> Max (set (map datetime B)) = Max (set (map datetime seen)) \<and>
              list_all (\<lambda>t. window_start (sec * 1000000) (datetime t) =
                             window_start (sec * 1000000) (Max (set (map datetime seen)))) B))"

section \<open>Properties\<close>

subsection \<open>The symbol filter\<close>

lemma str_nat_not_Nil: "str_nat n \<noteq> []"
  by (subst str_nat.simps) simp

lemma last_str_nat: "last (str_nat n) = digit_char (n mod 10)"
  by (subst str_nat.simps) simp

lemma last_str_int: "last (str_int i) = digit_char (nat (\<bar>i\<bar> mod 10))"
  by (simp add: str_int_def last_str_nat str_nat_not_Nil nat_mod_distrib)

text \<open>
  Claim C8. For every root symbol and year, \<^const>\<open>filter_symbol_in_files\<close> maps month 12
  to code H of the next year, months 1 to 3 to H of the year itself, 4 to 6 to M, 7 to 9
  to U, 10 and 11 to Z, and gives no filter for any other month. The year appears as
  the last character of its decimal form.
\<close>

theorem filter_symbol_month_mapping:
  "(month = 12 \<longrightarrow>
      filter_symbol_in_files s y month = Some (s @ ''H'' @ [last (str_int (y + 1))])) \<and>
   (1 \<le> month \<and> month \<le> 3 \<longrightarrow>
      filter_symbol_in_files s y month = Some (s @ ''H'' @ [last (str_int y)])) \<and>
   (4 \<le> month \<and> month \<le> 6 \<longrightarrow>
      filter_symbol_in_files s y month = Some (s @ ''M'' @ [last (str_int y)])) \<and>
   (7 \<le> month \<and> month \<le> 9 \<longrightarrow>
      filter_symbol_in_files s y month = Some (s @ ''U'' @ [last (str_int y)])) \<and>
   (10 \<le> month \<and> month \<le> 11 \<longrightarrow>
      filter_symbol_in_files s y month = Some (s @ ''Z'' @ [last (str_int y)])) \<and>
   (month < 1 \<or> 12 < month \<longrightarrow> filter_symbol_in_files s y month = None)"
  unfolding filter_symbol_in_files_def by (auto simp: )

lemma str_int_2020: "str_int 2020 = ''2020''" "str_int 2021 = ''2021''"
  by (simp_all add: str_int_def digit_char_def)

theorem filter_symbol_month_mapping_witness:
  "filter_symbol_in_files ''NQ'' 2020 12 = Some ''NQH1'' \<and>
   filter_symbol_in_files ''NQ'' 2020 3 = Some ''NQH0'' \<and>
   filter_symbol_in_files ''NQ'' 2020 4 = Some ''NQM0'' \<and>
   filter_symbol_in_files ''NQ'' 2020 9 = Some ''NQU0'' \<and>
   filter_symbol_in_files ''NQ'' 2020 10 = Some ''NQZ0'' \<and>
   filter_symbol_in_files ''NQ'' 2020 13 = None"
  using filter_symbol_month_mapping [of 12 "''NQ''" 2020]
    filter_symbol_month_mapping [of 3 "''NQ''" 2020]
    filter_symbol_month_mapping [of 4 "''NQ''" 2020]
    filter_symbol_month_mapping [of 9 "''NQ''" 2020]
    filter_symbol_month_mapping [of 10 "''NQ''" 2020]
    filter_symbol_month_mapping [of 13 "''NQ''" 2020]
  by (simp add: str_int_2020)

lemma months_upto: "[1..12::int] = [1, 2, 3, 4, 5, 6, 7, 8, 9, 10, 11, 12]"
  by code_simp

text \<open>
  Claim C10. Only the last decimal digit of the contract year enters the filter: for a
  month 1 to 12 the filter is the symbol, the contract-month code and the last digit of
  the year (of the next year in December); hence for a year from 0 on, the filter of
  year \<open>y + 10\<close> is the filter of year \<open>y\<close>.
\<close>

theorem filter_symbol_last_digit:
  "(1 \<le> m \<and> m \<le> 12 \<longrightarrow>
      filter_symbol_in_files s y m =
        Some (s @ contract_code m @ [digit_char (nat (\<bar>if m = 12 then y + 1 else y\<bar> mod 10))])) \<and>
   (0 \<le> y \<longrightarrow> filter_symbol_in_files s (y + 10) m = filter_symbol_in_files s y m)"
proof (intro conjI impI)
  assume "1 \<le> m \<and> m \<le> 12"
  then have "m \<in> set [1..12]" by simp
  then have "m \<in> {1, 2, 3, 4, 5, 6, 7, 8, 9, 10, 11, 12}" unfolding months_upto by simp
  then show "filter_symbol_in_files s y m =
        Some (s @ contract_code m @ [digit_char (nat (\<bar>if m = 12 then y + 1 else y\<bar> mod 10))])"
    by (elim insertE emptyE) (simp_all add: filter_symbol_in_files_def contract_code_def last_str_int)
next
  assume y: "0 \<le> y"
  have a: "(y + 10) mod 10 = y mod 10" by simp
  have "11 + y = (y + 1) + 10" by simp
  then have b: "(11 + y) mod 10 = (y + 1) mod 10"
    by (simp only: mod_add_self2)
  have "last (str_int (y + 10)) = last (str_int y)"
    using y a by (simp add: last_str_int)
  moreover have "last (str_int (y + 10 + 1)) = last (str_int (y + 1))"
    using y b by (simp add: last_str_int)
  ultimately show "filter_symbol_in_files s (y + 10) m = filter_symbol_in_files s y m"
    by (simp only: filter_symbol_in_files_def)
qed

theorem filter_symbol_last_digit_witness:
  "filter_symbol_in_files ''ES'' 2019 12 = Some ''ESH0'' \<and>
   filter_symbol_in_files ''ES'' 2029 12 = filter_symbol_in_files ''ES'' 2019 12"
  using filter_symbol_last_digit [of 12 "''ES''" 2019]
  by (simp add: contract_code_def digit_char_def)

subsection \<open>The watermark\<close>

lemma floor_epoch_spec_div: "0 < sec \<Longrightarrow> floor_epoch_spec dt sec = dt div 1000000 div sec * sec * 1000000"
proof -
  assume "0 < sec"
  have "(real_of_int dt / 1000000) / real_of_int sec = real_of_int dt / real_of_int (1000000 * sec)"
    by simp
  then have "\<lfloor>(real_of_int dt / 1000000) / real_of_int sec\<rfloor> = dt div (1000000 * sec)"
    by (simp only: floor_divide_of_int_eq)
  also have "\<dots> = dt div 1000000 div sec"
    using \<open>0 < sec\<close> by (simp add: zdiv_zmult2_eq)
  finally show ?thesis
    by (simp add: floor_epoch_spec_def)
qed

declare top_bit.simps [simp del]

lemma top_bit_0: "top_bit 0 = 0"
  by (subst top_bit.simps) simp

lemma top_bit_le: "n < 2 ^ Suc j \<Longrightarrow> top_bit n \<le> 2 ^ j"
proof (induction j arbitrary: n)
  case 0
  then show ?case by (subst top_bit.simps) simp
next
  case (Suc j)
  show ?case
  proof (cases "n < 2")
    case True
    then have "top_bit n = n" by (subst top_bit.simps) simp
    also have "n \<le> 1" using True by simp
    also have "(1::nat) \<le> 2 ^ Suc j" by simp
    finally show ?thesis .
  next
    case False
    from Suc.prems have "n div 2 < 2 ^ Suc j" by simp
    from Suc.IH [OF this] have "2 * top_bit (n div 2) \<le> 2 ^ Suc j" by simp
    moreover have "top_bit n = 2 * top_bit (n div 2)"
      using False by (subst top_bit.simps) simp
    ultimately show ?thesis by simp
  qed
qed

lemma timestamp_int_whole: "dt mod 1000000 = 0 \<Longrightarrow> timestamp_int dt = dt div 1000000"
proof -
  assume "dt mod 1000000 = 0"
  then obtain q where q: "dt = 1000000 * q" by (auto simp: mod_eq_0_iff_dvd)
  have "\<bar>dt\<bar> = 1000000 * \<bar>q\<bar>" by (simp add: q abs_mult)
  then have a: "\<bar>dt\<bar> div 1000000 = \<bar>q\<bar>" "\<bar>dt\<bar> mod 1000000 = 0" by simp_all
  have "timestamp_int dt = (if 0 \<le> dt then \<bar>q\<bar> else - \<bar>q\<bar>)"
    unfolding timestamp_int_def Let_def a by simp
  also have "\<dots> = q" by (simp add: q zero_le_mult_iff)
  finally show ?thesis by (simp add: q)
qed

lemma timestamp_int_floor:
  assumes "0 \<le> dt" and "dt < 17179869184000000"
  shows "timestamp_int dt = dt div 1000000"
proof -
  define n where "n = dt div 1000000"
  define k where "k = dt mod 1000000"
  have n: "0 \<le> n" "n < 17179869184" using assms by (simp_all add: n_def)
  have k: "k < 1000000" by (simp add: k_def)
  have "nat n < 2 ^ Suc 33" using n by simp
  then have "top_bit (nat n) \<le> 2 ^ 33" by (rule top_bit_le)
  then have "int (top_bit (nat n)) \<le> 8589934592" by simp
  then have "1000000 * int (top_bit (nat n)) < 1 * 2 ^ 53" by simp
  also have "\<dots> \<le> (1000000 - k) * 2 ^ 53"
    using k by (intro mult_right_mono) simp_all
  finally have "\<not> (1000000 - k) * 2 ^ 53 \<le> 1000000 * int (top_bit (nat n))" by simp
  then show ?thesis
    using assms(1) by (simp add: timestamp_int_def Let_def n_def [symmetric] k_def [symmetric])
qed

lemma fromtimestamp_is_datetime:
  "is_datetime (flo * 1000000) \<Longrightarrow> fromtimestamp flo = Inr (flo * 1000000)"
  by (simp add: is_datetime_def datetime_min_def datetime_max_def fromtimestamp_def)

lemma floor_dt_to_seconds_from_epoch:
  assumes "0 < sec" and "dt mod 1000000 = 0 \<or> 0 \<le> dt \<and> dt < 17179869184000000"
    and "is_datetime (floor_epoch_spec dt sec)"
  shows "floor_dt_to_seconds dt sec = Inr (floor_epoch_spec dt sec)"
proof -
  have "timestamp_int dt = dt div 1000000"
    using assms(2) timestamp_int_whole [of dt] timestamp_int_floor [of dt] by auto
  moreover have "fromtimestamp (dt div 1000000 div sec * sec) = Inr (floor_epoch_spec dt sec)"
    using assms(1,3) fromtimestamp_is_datetime [of "dt div 1000000 div sec * sec"]
    by (simp add: floor_epoch_spec_div)
  ultimately show ?thesis
    using assms(1) by (simp add: floor_dt_to_seconds_def)
qed

text \<open>
  Claim C3, at an instant the claim covers and the code gets wrong. Half a second
  before the epoch, with windows of 60 seconds, \<^const>\<open>floor_dt_to_seconds\<close> answers the
  epoch itself, an instant after its argument; the floor of the specification is one
  minute before the epoch. The truncation toward zero of \<^verbatim>\<open>int(ts)\<close> is a floor on
  whole seconds and, from the epoch until the year 2514, on every instant
  (\<open>floor_dt_to_seconds_from_epoch\<close>).
\<close>

theorem floor_dt_to_seconds_before_epoch:
  "floor_dt_to_seconds (- 500000) 60 = Inr 0 \<and> floor_epoch_spec (- 500000) 60 = - 60000000"
  by (simp add: floor_dt_to_seconds_def timestamp_int_def fromtimestamp_def floor_epoch_spec_def
      top_bit_0)

lemma top_bit_power: "top_bit (2 ^ j) = 2 ^ j"
proof (induction j)
  case 0
  show ?case by (subst top_bit.simps) simp
next
  case (Suc j)
  have "top_bit (2 ^ Suc j) = 2 * top_bit (2 ^ Suc j div 2)"
    by (subst top_bit.simps) simp
  with Suc show ?case by simp
qed

text \<open>
  The rounding of the double shows first in the last microsecond of the second
  17179869184, in the year 2514: \<^verbatim>\<open>int(dt.timestamp())\<close> is the next second there.
\<close>

lemma timestamp_int_rounds_up: "timestamp_int 17179869184999999 = 17179869185"
proof -
  have "top_bit 17179869184 = 17179869184"
    using top_bit_power [of 34] by simp
  then show ?thesis by (simp add: timestamp_int_def)
qed

subsection \<open>Window-length strings\<close>

lemma rule_to_seconds_Inl_iff:
  "rule_to_seconds rule = (if lenient_seconds_form rule
                           then Inr (int_of_digits (takeWhile is_digit (strip rule)))
                           else Inl (ValueError rule))"
  by (simp add: rule_to_seconds_def lenient_seconds_form_def Let_def)

lemma rule_secs_of_first_bad:
  "list_all lenient_seconds_form pre \<Longrightarrow> \<not> lenient_seconds_form r \<Longrightarrow>
   rule_secs_of (pre @ r # post) acc = Inl (ValueError r)"
  by (induction pre arbitrary: acc) (simp_all add: rule_to_seconds_Inl_iff)

lemmas run_defs =
  run_input_def canonical_batch_def build_bars_from_ticks_def loop_through_files_def
  clean_tick_batch_def sanity_check_tick_data_def drop_nulls_datetime_mid_def
  ingest_def flush_def append_bars_def getitem_def bars_from_ticks_def window_bars_def
  polars_duration_def floor_dt_to_seconds_def timestamp_int_def fromtimestamp_def
  window_start_def
  merge_data_def sort_datetime_def rule_to_seconds_def strip_def is_digit_def is_space_def
  is_upper_def is_sep_def int_of_digits_def digit_val_def match_file_name_def
  filter_symbol_in_files_def List.map_filter_def Let_def numeral_2_eq_2 numeral_3_eq_3

text \<open>
  Claim C9, as the code has it. A configured window-length string is accepted when,
  once the whitespace around it is stripped, it is a run of digits, then whitespace or
  none, then the letter s. If one of the configured strings is not of this form, the
  run fails with the ValueError of the first such string in the order of the
  configuration, whatever the reader holds and however its cells are read; no mapping
  is returned.
\<close>

theorem build_bars_from_ticks_bad_rule:
  assumes "map snd (timeframemap input) = pre @ r # post"
    and "list_all lenient_seconds_form pre" and "\<not> lenient_seconds_form r"
  shows "build_bars_from_ticks strptime to_mid (input\<lparr>data := batches\<rparr>) = Inl (ValueError r)"
  using rule_secs_of_first_bad [OF assms(2,3), of post Map.empty] assms(1)
  by (simp add: build_bars_from_ticks_def)

theorem build_bars_from_ticks_bad_rule_witness:
  "map snd (timeframemap
     ((run_input [[(0, 1)]] ''60s'')
        \<lparr>timeframemap := [(''1m'', ''60s''), (''5m'', ''5m''), (''1h'', ''1h'')]\<rparr>)) =
     [''60s''] @ ''5m'' # [''1h''] \<and>
   list_all lenient_seconds_form [''60s''] \<and> \<not> lenient_seconds_form ''5m'' \<and>
   \<not> lenient_seconds_form ''1h'' \<and>
   build_bars_from_ticks Some Some
     ((run_input [[(0, 1)]] ''60s'')
        \<lparr>timeframemap := [(''1m'', ''60s''), (''5m'', ''5m''), (''1h'', ''1h'')]\<rparr>) =
     Inl (ValueError ''5m'')"
proof -
  let ?input = "(run_input [[(0, 1)]] ''60s'')
        \<lparr>timeframemap := [(''1m'', ''60s''), (''5m'', ''5m''), (''1h'', ''1h'')]\<rparr>"
  have m: "map snd (timeframemap ?input) = [''60s''] @ ''5m'' # [''1h'']"
    by (simp add: run_input_def)
  have l: "list_all lenient_seconds_form [''60s'']"
    by (simp add: lenient_seconds_form_def strip_def is_digit_def is_space_def)
  have n: "\<not> lenient_seconds_form ''5m''" "\<not> lenient_seconds_form ''1h''"
    by (simp_all add: lenient_seconds_form_def strip_def is_digit_def is_space_def)
  have "?input\<lparr>data := data ?input\<rparr> = ?input" by simp
  with build_bars_from_ticks_bad_rule [OF m l n(1), of Some Some "data ?input"]
  have "build_bars_from_ticks Some Some ?input = Inl (ValueError ''5m'')" by simp
  with m l n show ?thesis by simp
qed

text \<open>
  The claim as stated fails on a string with a blank before the letter s: it is not of
  the form digits followed by s, and a run on an input without ticks returns its
  mapping. Whitespace is that of Python: the same holds with a no-break space
  (\<open>lenient_seconds_form_nbsp\<close>).
\<close>

theorem build_bars_from_ticks_blank_rule:
  "\<not> whole_seconds_form ''60 s'' \<and>
   build_bars_from_ticks Some Some (run_input [] ''60 s'') = Inr [''60 s'' \<mapsto> empty_bars]"
proof -
  have a: "\<not> whole_seconds_form ''60 s''"
    by (simp add: whole_seconds_form_def is_digit_def)
  have b: "build_bars_from_ticks Some Some (run_input [] ''60 s'') = Inr [''60 s'' \<mapsto> empty_bars]"
    by (simp add: run_defs)
  from a b show ?thesis by simp
qed

lemma lenient_seconds_form_nbsp: "lenient_seconds_form [CHR ''6'', CHR ''0'', CHR 0xA0, CHR ''s'']"
  by (simp add: lenient_seconds_form_def strip_def is_digit_def is_space_def)

subsection \<open>Windows, groups and bars\<close>

lemma window_start_le: "0 < e \<Longrightarrow> window_start e t \<le> t"
proof -
  assume e: "0 < e"
  have "t = t div e * e + t mod e" by simp
  moreover have "0 \<le> t mod e" using e by simp
  ultimately show ?thesis unfolding window_start_def by linarith
qed

lemma window_start_gt: "0 < e \<Longrightarrow> t < window_start e t + e"
proof -
  assume e: "0 < e"
  have "t = t div e * e + t mod e" by simp
  moreover have "t mod e < e" using e by simp
  ultimately show ?thesis unfolding window_start_def by linarith
qed

lemma window_start_mono: "0 < e \<Longrightarrow> a \<le> b \<Longrightarrow> window_start e a \<le> window_start e b"
  by (simp add: window_start_def zdiv_mono1)

lemma window_start_dvd: "e dvd window_start e t"
  by (simp add: window_start_def)

lemma window_start_multiple: "e dvd c \<Longrightarrow> e \<noteq> 0 \<Longrightarrow> window_start e c = c"
  by (auto simp: window_start_def)

lemma window_start_less_iff:
  assumes "0 < e" and "e dvd c"
  shows "window_start e t < c \<longleftrightarrow> t < c"
proof
  assume "t < c"
  with window_start_le [OF assms(1), of t] show "window_start e t < c" by simp
next
  assume l: "window_start e t < c"
  show "t < c"
  proof (rule ccontr)
    assume "\<not> t < c"
    then have "c \<le> t" by simp
    from window_start_mono [OF assms(1) this] assms
    have "c \<le> window_start e t" by (simp add: window_start_multiple)
    with l show False by simp
  qed
qed

lemma window_start_eq_iff:
  assumes "0 < e" and "e dvd k"
  shows "window_start e t = k \<longleftrightarrow> k \<le> t \<and> t < k + e"
proof
  assume "window_start e t = k"
  with window_start_le [OF assms(1), of t] window_start_gt [OF assms(1), of t]
  show "k \<le> t \<and> t < k + e" by simp
next
  assume a: "k \<le> t \<and> t < k + e"
  from assms(2) obtain q where q: "k = e * q" by (auto simp: dvd_def)
  have "t div e = q"
  proof (rule int_div_pos_eq)
    show "0 \<le> t - e * q" using a q by simp
    show "t - e * q < e" using a q by simp
    show "t = e * q + (t - e * q)" by simp
  qed
  then show "window_start e t = k" by (simp add: window_start_def q)
qed

lemma group_by_dynamic_Cons:
  "\<exists>g gs. group_by_dynamic e (t # ts) = (window_start e (datetime t), t # g) # gs"
  by (auto simp: Let_def split: list.splits)

lemma group_by_dynamic_Nil_iff: "group_by_dynamic e xs = [] \<longleftrightarrow> xs = []"
  by (cases xs) (auto simp: Let_def split: list.splits)

lemma concat_group_by_dynamic: "concat (map snd (group_by_dynamic e xs)) = xs"
  by (induction xs) (auto simp: Let_def split: list.splits)

lemma group_by_dynamic_keyed:
  "(k, g) \<in> set (group_by_dynamic e xs) \<Longrightarrow>
   g \<noteq> [] \<and> (\<forall>t \<in> set g. window_start e (datetime t) = k)"
proof (induction xs arbitrary: k g)
  case Nil
  then show ?case by simp
next
  case (Cons t ts)
  show ?case
  proof (cases "group_by_dynamic e ts")
    case Nil
    with Cons.prems show ?thesis by simp
  next
    case (Cons p ps)
    obtain k' g' where p: "p = (k', g')" by (cases p)
    have "(k', g') \<in> set (group_by_dynamic e ts)" using Cons p by simp
    from Cons.IH [OF this] have hd: "g' \<noteq> [] \<and> (\<forall>t \<in> set g'. window_start e (datetime t) = k')" .
    have tl: "(k, g) \<in> set ps \<Longrightarrow> g \<noteq> [] \<and> (\<forall>t \<in> set g. window_start e (datetime t) = k)"
      using Cons.IH [of k g] Cons by simp
    from Cons.prems Cons p hd tl show ?thesis
      by (auto simp: Let_def split: if_splits)
  qed
qed

lemma group_by_dynamic_append:
  "xs \<noteq> [] \<Longrightarrow> ys \<noteq> [] \<Longrightarrow>
   window_start e (datetime (last xs)) \<noteq> window_start e (datetime (hd ys)) \<Longrightarrow>
   group_by_dynamic e (xs @ ys) = group_by_dynamic e xs @ group_by_dynamic e ys"
proof (induction xs)
  case Nil
  then show ?case by simp
next
  case (Cons t xs)
  show ?case
  proof (cases xs)
    case Nil
    from Cons.prems(2) obtain y ys' where ys: "ys = y # ys'" by (cases ys) auto
    from group_by_dynamic_Cons [of e y ys'] obtain g gs where
      "group_by_dynamic e ys = (window_start e (datetime y), y # g) # gs" unfolding ys by blast
    with Cons.prems Nil ys show ?thesis by (simp add: Let_def)
  next
    case (Cons x xs')
    with Cons.prems Cons.IH
    have IH: "group_by_dynamic e (xs @ ys) = group_by_dynamic e xs @ group_by_dynamic e ys"
      by simp
    from group_by_dynamic_Cons [of e x xs'] obtain g gs where
      "group_by_dynamic e xs = (window_start e (datetime x), x # g) # gs" unfolding Cons by blast
    with IH show ?thesis by (simp add: Let_def)
  qed
qed

lemma group_by_dynamic_keys_sorted:
  "sorted (map (\<lambda>t. window_start e (datetime t)) xs) \<Longrightarrow>
   sorted_wrt (<) (map fst (group_by_dynamic e xs))"
proof (induction xs)
  case Nil
  then show ?case by simp
next
  case (Cons t ts)
  then have IH: "sorted_wrt (<) (map fst (group_by_dynamic e ts))" by simp
  show ?case
  proof (cases ts)
    case Nil
    then show ?thesis by simp
  next
    case (Cons u us)
    from group_by_dynamic_Cons [of e u us] obtain g gs where
      g: "group_by_dynamic e ts = (window_start e (datetime u), u # g) # gs" unfolding Cons by blast
    from Cons.prems Cons have "window_start e (datetime t) \<le> window_start e (datetime u)"
      by simp
    with IH g show ?thesis by (auto simp: Let_def)
  qed
qed

lemma filter_concat_groups:
  "distinct (map fst G) \<Longrightarrow>
   (\<And>k g. (k, g) \<in> set G \<Longrightarrow> \<forall>t \<in> set g. window_start e (datetime t) = k) \<Longrightarrow>
   (k, g) \<in> set G \<Longrightarrow>
   filter (\<lambda>t. window_start e (datetime t) = k) (concat (map snd G)) = g"
proof (induction G)
  case Nil
  then show ?case by simp
next
  case (Cons p G)
  obtain k' g' where p: "p = (k', g')" by (cases p)
  have keyed': "\<forall>t \<in> set g'. window_start e (datetime t) = k'"
    using Cons.prems(2) [of k' g'] p by simp
  show ?case
  proof (cases "(k, g) \<in> set G")
    case True
    then have "k \<in> set (map fst G)" by force
    with Cons.prems(1) p have "k' \<noteq> k" by auto
    with keyed' have "filter (\<lambda>t. window_start e (datetime t) = k) g' = []"
      by (auto simp: filter_empty_conv)
    moreover have "filter (\<lambda>t. window_start e (datetime t) = k) (concat (map snd G)) = g"
    proof (rule Cons.IH [OF _ _ True])
      show "distinct (map fst G)" using Cons.prems(1) by simp
      show "\<forall>t \<in> set g. window_start e (datetime t) = k" if "(k, g) \<in> set G" for k g
        using Cons.prems(2) [of k g] that by simp
    qed
    ultimately show ?thesis using p by simp
  next
    case False
    with Cons.prems(3) p have eq: "k' = k" "g' = g" by auto
    have "filter (\<lambda>t. window_start e (datetime t) = k) g = g"
      using keyed' eq by (auto simp: filter_id_conv)
    moreover have "filter (\<lambda>t. window_start e (datetime t) = k) (concat (map snd G)) = []"
    proof -
      have "k \<notin> set (map fst G)" using Cons.prems(1) p eq by simp
      then have "\<And>k'' g''. (k'', g'') \<in> set G \<Longrightarrow> k'' \<noteq> k" by force
      with Cons.prems(2) show ?thesis
        by (fastforce simp: filter_empty_conv)
    qed
    ultimately show ?thesis using p eq by simp
  qed
qed

lemma sorted_window_keys:
  "0 < e \<Longrightarrow> sorted (map datetime xs) \<Longrightarrow> sorted (map (\<lambda>t. window_start e (datetime t)) xs)"
  by (induction xs) (auto simp: window_start_mono)

lemma group_by_dynamic_filter:
  assumes "0 < e" and "sorted (map datetime xs)" and "(k, g) \<in> set (group_by_dynamic e xs)"
  shows "g = filter (\<lambda>t. window_start e (datetime t) = k) xs"
proof -
  have "sorted_wrt (<) (map fst (group_by_dynamic e xs))"
    using assms(1,2) by (intro group_by_dynamic_keys_sorted sorted_window_keys)
  then have "distinct (map fst (group_by_dynamic e xs))"
    by (simp add: strict_sorted_iff)
  from filter_concat_groups [OF this _ assms(3)] group_by_dynamic_keyed [of _ _ e xs]
  show ?thesis by (simp add: concat_group_by_dynamic)
qed

lemma agg_Some:
  assumes "agg (k, g) = Some b"
  shows "g \<noteq> [] \<and> datetime b = k \<and> bar.open b = mid (hd g) \<and> high b = Max (mid ` set g) \<and>
         low b = Min (mid ` set g) \<and> close b = mid (last g) \<and> volume b = length g"
proof (cases g)
  case Nil
  with assms show ?thesis by simp
next
  case (Cons t ts)
  have "fold max (map mid ts) (mid t) = Max (set (mid t # map mid ts))"
    by (simp only: Max.set_eq_fold)
  moreover have "fold min (map mid ts) (mid t) = Min (set (mid t # map mid ts))"
    by (simp only: Min.set_eq_fold)
  ultimately show ?thesis using assms Cons by auto
qed

lemma agg_nonempty: "g \<noteq> [] \<Longrightarrow> \<exists>b. agg (k, g) = Some b"
  by (cases g) auto

lemma map_filter_agg_keys:
  "(\<And>k g. (k, g) \<in> set G \<Longrightarrow> g \<noteq> []) \<Longrightarrow> map datetime (List.map_filter agg G) = map fst G"
proof (induction G)
  case Nil
  then show ?case by (simp add: List.map_filter_simps)
next
  case (Cons p G)
  obtain k g where p: "p = (k, g)" by (cases p)
  with Cons.prems [of k g] have "g \<noteq> []" by simp
  from agg_nonempty [OF this, of k] obtain b where b: "agg (k, g) = Some b" by blast
  from agg_Some [OF b] have "datetime b = k" by simp
  moreover have "map datetime (List.map_filter agg G) = map fst G"
  proof (rule Cons.IH)
    show "g \<noteq> []" if "(k, g) \<in> set G" for k g
      using Cons.prems [of k g] that by simp
  qed
  ultimately show ?case using p b by (simp add: List.map_filter_simps)
qed

lemma in_map_filter_agg:
  "b \<in> set (List.map_filter agg G) \<Longrightarrow> \<exists>k g. (k, g) \<in> set G \<and> agg (k, g) = Some b"
proof -
  assume "b \<in> set (List.map_filter agg G)"
  then obtain p where p: "p \<in> set G" "agg p = Some b"
    by (auto simp: List.map_filter_def)
  obtain k g where "p = (k, g)" by (cases p)
  with p show ?thesis by blast
qed

lemma bars_keys:
  "map datetime (window_bars e xs) = map fst (group_by_dynamic e xs)"
  unfolding window_bars_def
  using group_by_dynamic_keyed [of _ _ e xs] by (intro map_filter_agg_keys) blast

lemma bars_sorted:
  assumes "0 < e" and "sorted (map datetime xs)"
  shows "sorted_wrt (<) (map datetime (window_bars e xs))"
  unfolding bars_keys using assms by (intro group_by_dynamic_keys_sorted sorted_window_keys)

lemma sort_bars:
  assumes "0 < e" and "sorted (map datetime xs)"
  shows "sort_key datetime (window_bars e xs) =
         window_bars e xs"
  using bars_sorted [OF assms] by (intro sort_key_id_if_sorted) (simp add: strict_sorted_iff)

lemma keys_of_ticks:
  "set (map fst (group_by_dynamic e xs)) = (\<lambda>t. window_start e (datetime t)) ` set xs"
proof -
  have "set xs = set (concat (map snd (group_by_dynamic e xs)))"
    by (simp add: concat_group_by_dynamic)
  then have xs: "set xs = (\<Union>p \<in> set (group_by_dynamic e xs). set (snd p))" by simp
  show ?thesis
  proof (intro set_eqI iffI)
    fix k assume "k \<in> set (map fst (group_by_dynamic e xs))"
    then obtain g where g: "(k, g) \<in> set (group_by_dynamic e xs)" by auto
    from group_by_dynamic_keyed [OF this] obtain t where "t \<in> set g" "window_start e (datetime t) = k"
      by (cases g) auto
    with g xs show "k \<in> (\<lambda>t. window_start e (datetime t)) ` set xs" by force
  next
    fix k assume "k \<in> (\<lambda>t. window_start e (datetime t)) ` set xs"
    then obtain t where t: "t \<in> set xs" "k = window_start e (datetime t)" by auto
    with xs obtain k' g where g: "(k', g) \<in> set (group_by_dynamic e xs)" "t \<in> set g" by auto
    from group_by_dynamic_keyed [OF g(1)] g(2) t have "k' = k" by simp
    with g show "k \<in> set (map fst (group_by_dynamic e xs))" by force
  qed
qed

text \<open>
  Claim C4. On a frame of ticks that is not empty and sorted by timestamp, at instants
  of the years 1 to 9999, for a rule that Polars reads as a positive window length
  that fits its 64-bit count of nanoseconds (up to 9223372036 seconds),
  \<^const>\<open>bars_from_ticks\<close> returns bars
  sorted strictly ascending by their window start; every tick lies in the window
  \<open>[start, start + every)\<close> of one of them; every bar starts on a multiple of the window
  length, its window holds a tick, and its open, high, low, close and volume are the
  first price, the largest, the smallest, the last and the number of the ticks of its
  window, in timestamp order.
\<close>

theorem bars_from_ticks_ohlcv:
  assumes "ticks \<noteq> []" and "sorted (map datetime ticks)"
    and "polars_duration rule = Some every" and "0 < every"
    and "fits_duration every" and "\<forall>t \<in> set ticks. is_datetime (datetime t)"
  shows "\<exists>f. bars_from_ticks ticks rule = Inr f \<and>
     sorted_wrt (<) (map datetime (rows f)) \<and>
     (\<forall>t \<in> set ticks. \<exists>b \<in> set (rows f).
        datetime b \<le> datetime t \<and> datetime t < datetime b + every) \<and>
     (\<forall>b \<in> set (rows f). every dvd datetime b \<and>
        (let g = filter (\<lambda>t. datetime b \<le> datetime t \<and> datetime t < datetime b + every) ticks
         in g \<noteq> [] \<and> bar.open b = mid (hd g) \<and> high b = Max (mid ` set g) \<and>
            low b = Min (mid ` set g) \<and> close b = mid (last g) \<and> volume b = length g))"
proof -
  let ?G = "group_by_dynamic every ticks"
  let ?B = "window_bars every ticks"
  have f: "bars_from_ticks ticks rule = Inr \<lparr>schema = bars_schema, rows = ?B\<rparr>"
    using assms(1-4) by (simp add: bars_from_ticks_def sort_bars)
  have 1: "sorted_wrt (<) (map datetime ?B)"
    using assms(2,4) by (intro bars_sorted)
  have 2: "\<exists>b \<in> set ?B. datetime b \<le> datetime t \<and> datetime t < datetime b + every"
    if "t \<in> set ticks" for t
  proof -
    from that have "window_start every (datetime t) \<in> set (map datetime ?B)"
      unfolding bars_keys keys_of_ticks by blast
    then obtain b where "b \<in> set ?B" "datetime b = window_start every (datetime t)" by auto
    with window_start_le [OF assms(4), of "datetime t"] window_start_gt [OF assms(4), of "datetime t"]
    show ?thesis by (intro bexI [of _ b]) simp_all
  qed
  have 3: "every dvd datetime b \<and>
        (let g = filter (\<lambda>t. datetime b \<le> datetime t \<and> datetime t < datetime b + every) ticks
         in g \<noteq> [] \<and> bar.open b = mid (hd g) \<and> high b = Max (mid ` set g) \<and>
            low b = Min (mid ` set g) \<and> close b = mid (last g) \<and> volume b = length g)"
    if "b \<in> set ?B" for b
  proof -
    from in_map_filter_agg [OF that [unfolded window_bars_def]] obtain k g where
      g: "(k, g) \<in> set ?G" and b: "agg (k, g) = Some b" by blast
    from agg_Some [OF b] have k: "datetime b = k" by simp
    from group_by_dynamic_keyed [OF g] obtain t :: tick where "window_start every (datetime t) = k"
      by (cases g) auto
    then have dvd: "every dvd k" using window_start_dvd [of every "datetime t"] by simp
    have "g = filter (\<lambda>t. window_start every (datetime t) = k) ticks"
      using group_by_dynamic_filter [OF assms(4,2) g] .
    also have "\<dots> = filter (\<lambda>t. k \<le> datetime t \<and> datetime t < k + every) ticks"
      using window_start_eq_iff [OF assms(4) dvd] by simp
    finally have "g = filter (\<lambda>t. datetime b \<le> datetime t \<and> datetime t < datetime b + every) ticks"
      using k by simp
    with agg_Some [OF b] dvd k show ?thesis by (simp add: Let_def)
  qed
  from f 1 2 3 show ?thesis by simp
qed

theorem bars_from_ticks_ohlcv_witness:
  "[\<lparr>datetime = 1000000, mid = 100\<rparr>, \<lparr>datetime = 61000000, mid = 102\<rparr>] \<noteq> [] \<and>
   sorted (map datetime [\<lparr>datetime = 1000000, mid = 100\<rparr>, \<lparr>datetime = 61000000, mid = 102\<rparr>]) \<and>
   polars_duration ''60s'' = Some 60000000 \<and> fits_duration 60000000 \<and>
   is_datetime 1000000 \<and> is_datetime 61000000 \<and>
   (\<exists>f. bars_from_ticks [\<lparr>datetime = 1000000, mid = 100\<rparr>, \<lparr>datetime = 61000000, mid = 102\<rparr>]
          ''60s'' = Inr f \<and>
        sorted_wrt (<) (map datetime (rows f)))"
proof -
  let ?ticks = "[\<lparr>datetime = 1000000, mid = 100\<rparr>, \<lparr>datetime = 61000000, mid = 102\<rparr>]"
  have d: "polars_duration ''60s'' = Some 60000000"
    by (simp add: polars_duration_def is_digit_def int_of_digits_def digit_val_def)
  have s: "sorted (map datetime ?ticks)"
    by simp
  have f: "fits_duration 60000000"
    by (simp add: fits_duration_def)
  have i: "is_datetime 1000000" "is_datetime 61000000"
    by (simp_all add: is_datetime_def datetime_min_def datetime_max_def)
  then have a: "\<forall>t \<in> set ?ticks. is_datetime (datetime t)"
    by simp
  have "\<exists>f. bars_from_ticks ?ticks ''60s'' = Inr f \<and> sorted_wrt (<) (map datetime (rows f))"
    using bars_from_ticks_ohlcv [OF _ s d _ f a] by auto
  with d s f i show ?thesis by simp
qed

subsection \<open>Merging\<close>

lemma set_unique_keep_last: "datetime ` set (unique_keep_last bs) = datetime ` set bs"
  by (induction bs) auto

lemma unique_keep_last_subset: "set (unique_keep_last bs) \<subseteq> set bs"
  by (induction bs) auto

lemma distinct_unique_keep_last: "distinct (map datetime (unique_keep_last bs))"
  by (induction bs) (simp_all add: set_unique_keep_last)

lemma unique_keep_last_is_last:
  "b \<in> set (unique_keep_last bs) \<Longrightarrow> last (filter (\<lambda>x. datetime x = datetime b) bs) = b"
proof (induction bs)
  case Nil
  then show ?case by simp
next
  case (Cons a bs)
  show ?case
  proof (cases "b \<in> set (unique_keep_last bs)")
    case True
    then have "b \<in> set bs" using unique_keep_last_subset by blast
    then have "filter (\<lambda>x. datetime x = datetime b) bs \<noteq> []"
      by (auto simp: filter_empty_conv)
    with Cons.IH [OF True] show ?thesis by simp
  next
    case False
    with Cons.prems have ab: "a = b" and "datetime a \<notin> datetime ` set bs"
      by (auto split: if_splits)
    then have "filter (\<lambda>x. datetime x = datetime b) bs = []"
      unfolding filter_empty_conv by (metis imageI)
    with ab show ?thesis by simp
  qed
qed

lemma merge_rules_other:
  "merge_rules bars rs acc = Inr final \<Longrightarrow> r \<notin> set rs \<Longrightarrow> final r = acc r"
proof (induction rs arbitrary: acc)
  case Nil
  then show ?case by simp
next
  case (Cons x rs)
  from Cons.prems(1) obtain v where "merge_rules bars rs (acc(x \<mapsto> v)) = Inr final"
    by (auto simp: Let_def split: sum.splits if_splits)
  from Cons.IH [OF this] Cons.prems(2) show ?case by simp
qed

lemma merge_rules_Cons_Inr:
  assumes "merge_rules bars (x # rs) acc = Inr final"
  shows "\<exists>frames v. bars x = Some frames \<and> merge_rules bars rs (acc(x \<mapsto> v)) = Inr final \<and>
     (if frames = [] then v = empty_bars
      else \<exists>a. concat_vertical frames = Inr a \<and>
             v = sort_datetime
                   ((sort_datetime a)\<lparr>rows := unique_keep_last (rows (sort_datetime a))\<rparr>))"
proof -
  from assms obtain frames where f: "bars x = Some frames"
    by (auto simp: getitem_def split: option.splits)
  show ?thesis
  proof (cases "frames = []")
    case True
    with assms f show ?thesis by (simp add: getitem_def)
  next
    case False
    with assms f obtain a where "concat_vertical frames = Inr a"
      by (auto simp: getitem_def split: sum.splits)
    with assms f False show ?thesis by (simp add: getitem_def Let_def)
  qed
qed

lemma merge_rules_entry:
  "merge_rules bars rs acc = Inr final \<Longrightarrow> r \<in> set rs \<Longrightarrow>
   \<exists>frames. bars r = Some frames \<and>
     (if frames = [] then final r = Some empty_bars
      else \<exists>a. concat_vertical frames = Inr a \<and>
             final r = Some (sort_datetime
               ((sort_datetime a)\<lparr>rows := unique_keep_last (rows (sort_datetime a))\<rparr>)))"
proof (induction rs arbitrary: acc)
  case Nil
  then show ?case by simp
next
  case (Cons x rs)
  from merge_rules_Cons_Inr [OF Cons.prems(1)] obtain frames v where
    f: "bars x = Some frames" and m: "merge_rules bars rs (acc(x \<mapsto> v)) = Inr final" and
    v: "if frames = [] then v = empty_bars
      else \<exists>a. concat_vertical frames = Inr a \<and>
             v = sort_datetime
                   ((sort_datetime a)\<lparr>rows := unique_keep_last (rows (sort_datetime a))\<rparr>)"
    by blast
  show ?case
  proof (cases "r \<in> set rs")
    case True
    from Cons.IH [OF m True] show ?thesis .
  next
    case False
    with Cons.prems have x: "x = r" by simp
    from merge_rules_other [OF m False] have "final r = Some v" by (simp add: x)
    with f v show ?thesis unfolding x by (auto split: if_splits)
  qed
qed

lemma merge_rules_succeeds:
  "(\<And>r. r \<in> set rs \<Longrightarrow>
      \<exists>frames. bars r = Some frames \<and> list_all (\<lambda>f. schema f = schema (hd frames)) frames) \<Longrightarrow>
   \<exists>final. merge_rules bars rs acc = Inr final"
proof (induction rs arbitrary: acc)
  case Nil
  then show ?case by simp
next
  case (Cons x rs)
  from Cons.prems [of x] obtain frames where
    f: "bars x = Some frames" "list_all (\<lambda>f. schema f = schema (hd frames)) frames"
    by auto
  have c: "frames \<noteq> [] \<Longrightarrow> \<exists>a. concat_vertical frames = Inr a"
    using f(2) by (cases frames) (auto simp: list_all_iff)
  have "\<And>acc'. \<exists>final. merge_rules bars rs acc' = Inr final"
    using Cons.IH Cons.prems by simp
  then show ?case
    using f c by (auto simp: getitem_def Let_def)
qed

lemma concat_vertical_rows: "concat_vertical frames = Inr a \<Longrightarrow> rows a = concat (map rows frames)"
  by (cases frames) (auto split: if_splits)

text \<open>
  Claim C6. When every configured rule has its list of accumulated bar frames, all of
  one schema, \<^const>\<open>merge_data\<close> returns a mapping; for a rule
  whose list is not empty the series is sorted ascending by window start, no window
  start occurs twice, the window starts are those of the accumulated frames, and every
  row kept is the last row of its window start in the order in which the frames were
  appended.
\<close>

theorem merge_data_sorted_unique_last:
  assumes "\<forall>r \<in> set rs. \<exists>fs. bars r = Some fs \<and> list_all (\<lambda>f. schema f = schema (hd fs)) fs"
    and "r \<in> set rs" and "bars r = Some frames" and "frames \<noteq> []"
  shows "\<exists>final f. merge_data bars rs = Inr final \<and> final r = Some f \<and>
           sorted (map datetime (rows f)) \<and> distinct (map datetime (rows f)) \<and>
           set (map datetime (rows f)) = set (map datetime (concat (map rows frames))) \<and>
           (\<forall>b \<in> set (rows f).
              b = last (filter (\<lambda>x. datetime x = datetime b) (concat (map rows frames))))"
proof -
  from assms(1) obtain final where final: "merge_rules bars rs Map.empty = Inr final"
    using merge_rules_succeeds [of rs bars Map.empty] by blast
  from merge_rules_entry [OF final assms(2)] assms(3,4)
  obtain a where a: "concat_vertical frames = Inr a"
    and f: "final r = Some (sort_datetime
               ((sort_datetime a)\<lparr>rows := unique_keep_last (rows (sort_datetime a))\<rparr>))"
    by auto
  let ?C = "concat (map rows frames)"
  let ?f = "sort_datetime ((sort_datetime a)\<lparr>rows := unique_keep_last (rows (sort_datetime a))\<rparr>)"
  have rows: "rows ?f = sort_key datetime (unique_keep_last (sort_key datetime ?C))"
    using concat_vertical_rows [OF a] by (simp add: sort_datetime_def)
  have 1: "sorted (map datetime (rows ?f))"
    unfolding rows by simp
  have 2: "distinct (map datetime (rows ?f))"
    unfolding rows using distinct_unique_keep_last [of "sort_key datetime ?C"]
    by (simp add: distinct_map)
  have 3: "set (map datetime (rows ?f)) = set (map datetime ?C)"
    unfolding rows using set_unique_keep_last [of "sort_key datetime ?C"] by simp
  have 4: "b = last (filter (\<lambda>x. datetime x = datetime b) ?C)" if "b \<in> set (rows ?f)" for b
  proof -
    from that have "b \<in> set (unique_keep_last (sort_key datetime ?C))"
      unfolding rows by simp
    from unique_keep_last_is_last [OF this] show ?thesis
      by (simp add: sort_key_stable)
  qed
  from final f 1 2 3 4 show ?thesis
    unfolding merge_data_def by blast
qed

theorem merge_data_sorted_unique_last_witness:
  "\<exists>final f.
      merge_data
        [''60s'' \<mapsto>
           [\<lparr>schema = bars_schema,
              rows = [\<lparr>datetime = 0, open = 1, high = 2, low = 1, close = 2, volume = 2\<rparr>]\<rparr>,
            \<lparr>schema = bars_schema,
              rows = [\<lparr>datetime = 0, open = 3, high = 3, low = 3, close = 3, volume = 1\<rparr>]\<rparr>]]
        [''60s''] = Inr final \<and>
      final ''60s'' = Some f \<and> sorted (map datetime (rows f)) \<and>
      distinct (map datetime (rows f)) \<and> set (map datetime (rows f)) = {0}"
proof -
  let ?b1 = "\<lparr>datetime = 0, open = 1, high = 2, low = 1, close = 2, volume = 2\<rparr>"
  let ?b2 = "\<lparr>datetime = 0, open = 3, high = 3, low = 3, close = 3, volume = 1\<rparr>"
  let ?fs = "[\<lparr>schema = bars_schema, rows = [?b1]\<rparr>, \<lparr>schema = bars_schema, rows = [?b2]\<rparr>]"
  have h: "\<forall>r \<in> set [''60s'']. \<exists>fs. [''60s'' \<mapsto> ?fs] r = Some fs \<and>
             list_all (\<lambda>f. schema f = schema (hd fs)) fs"
    by simp
  have "\<exists>final f. merge_data [''60s'' \<mapsto> ?fs] [''60s''] = Inr final \<and> final ''60s'' = Some f \<and>
           sorted (map datetime (rows f)) \<and> distinct (map datetime (rows f)) \<and>
           set (map datetime (rows f)) = set (map datetime (concat (map rows ?fs))) \<and>
           (\<forall>b \<in> set (rows f).
              b = last (filter (\<lambda>x. datetime x = datetime b) (concat (map rows ?fs))))"
    by (rule merge_data_sorted_unique_last [OF h]) simp_all
  then obtain final f where "merge_data [''60s'' \<mapsto> ?fs] [''60s''] = Inr final"
    "final ''60s'' = Some f"
    "sorted (map datetime (rows f))" "distinct (map datetime (rows f))"
    "set (map datetime (rows f)) = set (map datetime (concat (map rows ?fs)))"
    by blast
  moreover have "set (map datetime (concat (map rows ?fs))) = {0}" by simp
  ultimately show ?thesis by (intro exI [of _ final] exI [of _ f]) (simp only: simp_thms)
qed

lemma merge_data_dom: "merge_data bars rs = Inr final \<Longrightarrow> dom final = set rs"
proof -
  assume m: "merge_data bars rs = Inr final"
  have "r \<in> dom final \<longleftrightarrow> r \<in> set rs" for r
  proof (cases "r \<in> set rs")
    case True
    from merge_rules_entry [OF m [unfolded merge_data_def] True] show ?thesis
      using True by (auto split: if_splits)
  next
    case False
    from merge_rules_other [OF m [unfolded merge_data_def] False] show ?thesis
      using False by auto
  qed
  then show ?thesis by blast
qed

lemma merge_data_empty_entry:
  "merge_data bars rs = Inr final \<Longrightarrow> r \<in> set rs \<Longrightarrow> bars r = Some [] \<Longrightarrow> final r = Some empty_bars"
  using merge_rules_entry [of bars rs Map.empty final r] by (auto simp: merge_data_def)

text \<open>
  Claim C7, on two runs. A run on one tick returns a series whose volume column is of
  type \<^verbatim>\<open>UInt32\<close>, the type of \<^verbatim>\<open>pl.len()\<close>; a run without ticks returns the empty
  series that \<^const>\<open>merge_data\<close> declares, with a volume column of type \<^verbatim>\<open>Int64\<close>. Every
  configured rule has its entry (\<open>merge_data_dom\<close>), and a rule without bars has the empty
  series (\<open>merge_data_empty_entry\<close>); the types of the two series differ.
\<close>

theorem empty_series_volume_type:
  "build_bars_from_ticks Some Some (run_input [[(0, 1)]] ''60s'') =
     Inr [''60s'' \<mapsto>
            \<lparr>schema = bars_schema,
             rows = [\<lparr>datetime = 0, open = 1, high = 1, low = 1, close = 1, volume = 1\<rparr>]\<rparr>] \<and>
   build_bars_from_ticks Some Some (run_input [] ''60s'') = Inr [''60s'' \<mapsto> empty_bars] \<and>
   map_of bars_schema ''volume'' = Some UInt32 \<and>
   map_of (schema empty_bars) ''volume'' = Some Int64"
proof -
  have "build_bars_from_ticks Some Some (run_input [[(0, 1)]] ''60s'') =
     Inr [''60s'' \<mapsto>
            \<lparr>schema = bars_schema,
             rows = [\<lparr>datetime = 0, open = 1, high = 1, low = 1, close = 1, volume = 1\<rparr>]\<rparr>]"
    by (simp add: run_defs)
  moreover have "build_bars_from_ticks Some Some (run_input [] ''60s'') = Inr [''60s'' \<mapsto> empty_bars]"
    by (simp add: run_defs)
  ultimately show ?thesis by (simp add: bars_schema_def empty_bars_def)
qed

subsection \<open>Streaming\<close>

lemma column_max_Some: "xs \<noteq> [] \<Longrightarrow> column_max xs = Some (Max (set xs))"
  by (cases xs) (simp, simp only: column_max.simps Max.set_eq_fold)

lemma window_bars_Nil: "window_bars e [] = []"
  by (simp add: window_bars_def List.map_filter_simps)

lemma window_bars_Nil_iff: "window_bars e xs = [] \<longleftrightarrow> xs = []"
proof -
  have "map datetime (window_bars e xs) = [] \<longleftrightarrow> xs = []"
    unfolding bars_keys by (simp add: group_by_dynamic_Nil_iff)
  then show ?thesis by simp
qed

lemma bars_from_ticks_sorted:
  assumes "polars_duration r = Some e" and "0 < e" and "sorted (map datetime xs)"
  shows "bars_from_ticks xs r = Inr \<lparr>schema = bars_schema, rows = window_bars e xs\<rparr>"
  using assms by (simp add: bars_from_ticks_def sort_bars)

text \<open>
  Every instant that the sanitizer hands to the loop is a whole second.
\<close>

lemma drop_nulls_cell:
  "(t, sy) \<in> set (drop_nulls_datetime_mid rs) \<Longrightarrow>
   \<exists>r \<in> set rs. datetime_cell r = Some (datetime t)"
  by (auto simp: drop_nulls_datetime_mid_def List.map_filter_def split: option.splits)

lemma sanity_check_tick_data_rows:
  "t \<in> set (sanity_check_tick_data out sf lo hi) \<Longrightarrow>
   \<exists>sy. (t, sy) \<in> set (drop_nulls_datetime_mid (out_rows out))"
  by (auto simp: sanity_check_tick_data_def Let_def split: option.splits if_splits)

lemma clean_tick_batch_whole:
  assumes "t \<in> set (clean_tick_batch strptime to_mid raw sf lo hi)"
  shows "datetime t mod 1000000 = 0"
proof -
  from sanity_check_tick_data_rows [OF assms [unfolded clean_tick_batch_def Let_def]]
  obtain sy where "(t, sy) \<in> set (drop_nulls_datetime_mid
      (map (\<lambda>r. \<lparr>datetime_cell = map_option (\<lambda>s. s * 1000000) (strptime (ts_event r)),
                  mid_cell = to_mid (price r), symbol_cell = symbol r\<rparr>) (raw_rows raw)))"
    by auto
  from drop_nulls_cell [OF this] obtain s where "s * 1000000 = datetime t" by auto
  then have "datetime t = s * 1000000" by simp
  then show ?thesis by simp
qed

lemma floor_dt_to_seconds_window:
  assumes "0 < sec" and "t mod 1000000 = 0" and "is_datetime (window_start (sec * 1000000) t)"
  shows "floor_dt_to_seconds t sec = Inr (window_start (sec * 1000000) t)"
proof -
  have "t div (1000000 * sec) = t div 1000000 div sec"
    using assms(1) by (simp add: zdiv_zmult2_eq)
  then have w: "window_start (sec * 1000000) t = t div 1000000 div sec * sec * 1000000"
    by (simp add: window_start_def mult.commute)
  from assms(3) have "fromtimestamp (t div 1000000 div sec * sec) =
      Inr (t div 1000000 div sec * sec * 1000000)"
    unfolding w by (rule fromtimestamp_is_datetime)
  then show ?thesis
    using assms(1,2) by (simp add: floor_dt_to_seconds_def timestamp_int_whole w)
qed

lemma configured_window:
  assumes "configured run r secs sec" and "t \<in> set run" and "datetime t mod 1000000 = 0"
  shows "floor_dt_to_seconds (datetime t) sec = Inr (window_start (sec * 1000000) (datetime t))"
proof -
  from assms(1,2) have "0 < sec" "is_datetime (window_start (sec * 1000000) (datetime t))"
    by (auto simp: configured_def list_all_iff)
  then show ?thesis using assms(3) by (intro floor_dt_to_seconds_window)
qed

lemma append_bars_effect:
  assumes "polars_duration r = Some e" and "0 < e" and "sorted (map datetime xs)"
    and "bars_out d r = Some F"
  shows "\<exists>F'. append_bars d r xs = Inr (d\<lparr>bars_out := (bars_out d)(r \<mapsto> F')\<rparr>) \<and>
           concat (map rows F') = concat (map rows F) @ window_bars e xs \<and>
           (list_all (\<lambda>f. schema f = bars_schema \<and> rows f \<noteq> []) F \<longrightarrow>
            list_all (\<lambda>f. schema f = bars_schema \<and> rows f \<noteq> []) F')"
proof (cases "window_bars e xs = []")
  case True
  have "(bars_out d)(r \<mapsto> F) = bars_out d" using assms(4) by (rule map_upd_triv)
  then have "d\<lparr>bars_out := (bars_out d)(r \<mapsto> F)\<rparr> = d" by simp
  then have "append_bars d r xs = Inr (d\<lparr>bars_out := (bars_out d)(r \<mapsto> F)\<rparr>)"
    using True by (simp add: append_bars_def bars_from_ticks_sorted [OF assms(1-3)])
  with True show ?thesis by (intro exI [of _ F]) simp
next
  case False
  let ?b = "\<lparr>schema = bars_schema, rows = window_bars e xs\<rparr>"
  have "append_bars d r xs = Inr (d\<lparr>bars_out := (bars_out d)(r \<mapsto> F @ [?b])\<rparr>)"
    using False assms(4)
    by (simp add: append_bars_def bars_from_ticks_sorted [OF assms(1-3)] getitem_def)
  with False show ?thesis by (intro exI [of _ "F @ [?b]"]) simp
qed

lemma ingest_effect:
  fixes d :: "('t, 'p) LoopThroughFilesInputData"
  assumes "buffers d r = Some B" and "bars_out d r = Some F" and "rule_secs d r = Some sec"
    and "polars_duration r = Some e" and "0 < e" and "ticks \<noteq> []"
  defines "combined \<equiv> sort_key datetime (B @ ticks)"
  assumes fl: "floor_dt_to_seconds (Max (set (map datetime combined))) sec = Inr cutoff"
  shows "\<exists>d' F'. ingest ticks d r = Inr d' \<and> config d' = config d \<and>
           buffers d' = (buffers d)(r \<mapsto> filter (\<lambda>t. cutoff \<le> datetime t) combined) \<and>
           bars_out d' = (bars_out d)(r \<mapsto> F') \<and>
           concat (map rows F') =
             concat (map rows F) @ window_bars e (filter (\<lambda>t. datetime t < cutoff) combined) \<and>
           (list_all (\<lambda>f. schema f = bars_schema \<and> rows f \<noteq> []) F \<longrightarrow>
            list_all (\<lambda>f. schema f = bars_schema \<and> rows f \<noteq> []) F')"
proof -
  let ?fin = "filter (\<lambda>t. datetime t < cutoff) combined"
  let ?keep = "filter (\<lambda>t. cutoff \<le> datetime t) combined"
  have "length combined = length (B @ ticks)" by (simp add: combined_def)
  then have ne: "map datetime combined \<noteq> []" using assms(6) by auto
  have cm: "column_max (map datetime combined) = Some (Max (set (map datetime combined)))"
    using ne by (rule column_max_Some)
  have sorted: "sorted (map datetime ?fin)"
    by (intro sorted_filter) (simp add: combined_def)
  from append_bars_effect [OF assms(4,5) sorted assms(2)] obtain F' where
    ap: "append_bars d r ?fin = Inr (d\<lparr>bars_out := (bars_out d)(r \<mapsto> F')\<rparr>)" and
    F': "concat (map rows F') = concat (map rows F) @ window_bars e ?fin"
        "list_all (\<lambda>f. schema f = bars_schema \<and> rows f \<noteq> []) F \<longrightarrow>
         list_all (\<lambda>f. schema f = bars_schema \<and> rows f \<noteq> []) F'"
    by blast
  have un: "ingest ticks d r =
    (case (if ?fin \<noteq> [] then append_bars d r ?fin else Inr d) of
       Inl e \<Rightarrow> Inl e
     | Inr data' \<Rightarrow> Inr (data'\<lparr>buffers := (buffers data')(r \<mapsto> ?keep)\<rparr>))"
    unfolding ingest_def getitem_def Let_def
    by (simp add: assms(1,3) combined_def [symmetric] cm fl del: set_map cong: sum.case_cong)
  show ?thesis
  proof (cases "?fin = []")
    case True
    have "(bars_out d)(r \<mapsto> F) = bars_out d" using assms(2) by (rule map_upd_triv)
    with True un show ?thesis
      by (intro exI [of _ "d\<lparr>buffers := (buffers d)(r \<mapsto> ?keep)\<rparr>"] exI [of _ F])
         (simp add: config_def window_bars_Nil)
  next
    case False
    with un ap F' show ?thesis
      by (intro exI [of _ "d\<lparr>bars_out := (bars_out d)(r \<mapsto> F'), buffers := (buffers d)(r \<mapsto> ?keep)\<rparr>"]
          exI [of _ F'])
         (simp add: config_def)
  qed
qed

lemma for_rules_invariant:
  fixes body :: "('t, 'p) LoopThroughFilesInputData \<Rightarrow> string \<Rightarrow> error + ('t, 'p) LoopThroughFilesInputData"
  assumes "distinct rs"
    and step: "\<And>d r. r \<in> set rs \<Longrightarrow> P r (rule_secs d r) (buffers d r) (bars_out d r) \<Longrightarrow>
       \<exists>d'. body d r = Inr d' \<and> config d' = config d \<and>
            Q r (rule_secs d' r) (buffers d' r) (bars_out d' r) \<and>
            (\<forall>r'. r' \<noteq> r \<longrightarrow> buffers d' r' = buffers d r' \<and> bars_out d' r' = bars_out d r')"
    and "\<forall>r \<in> set rs. P r (rule_secs d r) (buffers d r) (bars_out d r)"
  shows "\<exists>d'. for_rules body rs d = Inr d' \<and> config d' = config d \<and>
           (\<forall>r \<in> set rs. Q r (rule_secs d' r) (buffers d' r) (bars_out d' r)) \<and>
           (\<forall>r. r \<notin> set rs \<longrightarrow> buffers d' r = buffers d r \<and> bars_out d' r = bars_out d r)"
  using assms
proof (induction rs arbitrary: d)
  case Nil
  then show ?case by simp
next
  case (Cons r rs)
  from Cons.prems(2) [of r d] Cons.prems(3) obtain d1 where
    d1: "body d r = Inr d1" "config d1 = config d"
      "Q r (rule_secs d1 r) (buffers d1 r) (bars_out d1 r)"
      "\<forall>r'. r' \<noteq> r \<longrightarrow> buffers d1 r' = buffers d r' \<and> bars_out d1 r' = bars_out d r'"
    by auto
  have secs: "rule_secs d1 = rule_secs d" using d1(2) by (simp add: config_def)
  have r: "r \<notin> set rs" and dist: "distinct rs" using Cons.prems(1) by simp_all
  have P1: "\<forall>r' \<in> set rs. P r' (rule_secs d1 r') (buffers d1 r') (bars_out d1 r')"
  proof
    fix r' assume r': "r' \<in> set rs"
    with r have "r' \<noteq> r" by auto
    with d1(4) have "buffers d1 r' = buffers d r'" "bars_out d1 r' = bars_out d r'" by simp_all
    with Cons.prems(3) r' secs show "P r' (rule_secs d1 r') (buffers d1 r') (bars_out d1 r')"
      by simp
  qed
  have "\<exists>d'. for_rules body rs d1 = Inr d' \<and> config d' = config d1 \<and>
           (\<forall>r \<in> set rs. Q r (rule_secs d' r) (buffers d' r) (bars_out d' r)) \<and>
           (\<forall>r. r \<notin> set rs \<longrightarrow> buffers d' r = buffers d1 r \<and> bars_out d' r = bars_out d1 r)"
  proof (rule Cons.IH [OF dist _ P1])
    fix d' :: "('t, 'p) LoopThroughFilesInputData" and r'
    assume "r' \<in> set rs" "P r' (rule_secs d' r') (buffers d' r') (bars_out d' r')"
    then show "\<exists>d''. body d' r' = Inr d'' \<and> config d'' = config d' \<and>
            Q r' (rule_secs d'' r') (buffers d'' r') (bars_out d'' r') \<and>
            (\<forall>r''. r'' \<noteq> r' \<longrightarrow> buffers d'' r'' = buffers d' r'' \<and> bars_out d'' r'' = bars_out d' r'')"
      using Cons.prems(2) [of r' d'] by simp
  qed
  then obtain d' where
    d': "for_rules body rs d1 = Inr d'" "config d' = config d1"
      "\<forall>r \<in> set rs. Q r (rule_secs d' r) (buffers d' r) (bars_out d' r)"
      "\<forall>r. r \<notin> set rs \<longrightarrow> buffers d' r = buffers d1 r \<and> bars_out d' r = bars_out d1 r"
    by blast
  have secs': "rule_secs d' = rule_secs d1" using d'(2) by (simp add: config_def)
  have "Q r (rule_secs d' r) (buffers d' r) (bars_out d' r)"
    using d1(3) d'(4) r secs' by simp
  moreover have "\<forall>x. x \<notin> set (r # rs) \<longrightarrow> buffers d' x = buffers d x \<and> bars_out d' x = bars_out d x"
    using d1(4) d'(4) by simp
  ultimately show ?case
    using d1(1,2) d'(1,2,3) by (intro exI [of _ d']) simp
qed

lemma sorted_filter_split:
  "sorted (map f xs) \<Longrightarrow> filter (\<lambda>x. f x < c) xs @ filter (\<lambda>x. c \<le> f x) xs = xs"
  for f :: "'a \<Rightarrow> int"
proof (induction xs)
  case Nil
  then show ?case by simp
next
  case (Cons x xs)
  show ?case
  proof (cases "f x < c")
    case True
    with Cons show ?thesis by simp
  next
    case False
    with Cons.prems have "\<forall>y \<in> set xs. c \<le> f y" by auto
    then have "filter (\<lambda>x. f x < c) xs = []" "filter (\<lambda>x. c \<le> f x) xs = xs"
      by (auto simp: filter_empty_conv filter_id_conv)
    with False show ?thesis by simp
  qed
qed

lemma sorted_Max_last:
  fixes xs :: "int list"
  assumes "sorted xs" and "xs \<noteq> []"
  shows "Max (set xs) = last xs"
proof (intro Max_eqI)
  show "finite (set xs)" by simp
  show "last xs \<in> set xs" using assms(2) by simp
  fix y assume y: "y \<in> set xs"
  have id: "butlast xs @ [last xs] = xs" using assms(2) by simp
  have "sorted (butlast xs @ [last xs])" using assms(1) by (simp only: id)
  then have "\<forall>x \<in> set (butlast xs). x \<le> last xs" by (simp add: sorted_append)
  moreover have "y \<in> set (butlast xs @ [last xs])" using y by (simp only: id)
  ultimately show "y \<le> last xs" by auto
qed

lemma window_bars_append:
  assumes "0 < e" and "e dvd c" and "\<forall>a \<in> set xs. datetime a < c" and "\<forall>z \<in> set ys. c \<le> datetime z"
  shows "window_bars e (xs @ ys) = window_bars e xs @ window_bars e ys"
proof (cases "xs = [] \<or> ys = []")
  case True
  then show ?thesis by (auto simp: window_bars_Nil)
next
  case False
  then have "last xs \<in> set xs" "hd ys \<in> set ys" by simp_all
  with assms(3,4) have "datetime (last xs) < c" "c \<le> datetime (hd ys)" by auto
  then have "window_start e (datetime (last xs)) < c" "\<not> window_start e (datetime (hd ys)) < c"
    using window_start_less_iff [OF assms(1,2)] by auto
  then have "window_start e (datetime (last xs)) \<noteq> window_start e (datetime (hd ys))" by auto
  with False show ?thesis
    by (simp add: window_bars_def group_by_dynamic_append List.map_filter_def)
qed

lemma unique_keep_last_distinct: "distinct (map datetime bs) \<Longrightarrow> unique_keep_last bs = bs"
  by (induction bs) auto

lemma watermark_dvd: "e dvd watermark e seen"
  by (simp add: watermark_def window_start_dvd)

lemma configured_config:
  fixes d d' :: "('t, 'p) LoopThroughFilesInputData"
  shows "config d' = config d \<Longrightarrow> configured run r (rule_secs d r) sec \<Longrightarrow>
         configured run r (rule_secs d' r) sec"
  by (simp add: config_def)

lemma streamed_ingest:
  fixes d :: "('t, 'p) LoopThroughFilesInputData"
  assumes st: "streamed run seen r (rule_secs d r) (buffers d r) (bars_out d r)"
    and ne: "ticks \<noteq> []"
    and sorted: "sorted (map datetime (seen @ ticks))"
    and whole: "\<forall>t \<in> set ticks. datetime t mod 1000000 = 0"
    and sub: "set ticks \<subseteq> set run"
  shows "\<exists>d'. ingest ticks d r = Inr d' \<and> config d' = config d \<and>
           streamed run (seen @ ticks) r (rule_secs d' r) (buffers d' r) (bars_out d' r) \<and>
           (\<forall>r'. r' \<noteq> r \<longrightarrow> buffers d' r' = buffers d r' \<and> bars_out d' r' = bars_out d r')"
proof -
  from st obtain sec B F where
    cf: "configured run r (rule_secs d r) sec" and
    B: "buffers d r = Some B" "B = filter (\<lambda>t. watermark (sec * 1000000) seen \<le> datetime t) seen" and
    F: "bars_out d r = Some F" "list_all (\<lambda>f. schema f = bars_schema \<and> rows f \<noteq> []) F"
       "concat (map rows F) =
          window_bars (sec * 1000000)
            (filter (\<lambda>t. datetime t < watermark (sec * 1000000) seen) seen)"
    unfolding streamed_def by blast
  from cf have sec: "rule_secs d r = Some sec" "0 < sec" "polars_duration r = Some (sec * 1000000)"
    by (simp_all add: configured_def)
  define e where "e = sec * 1000000"
  define c where "c = watermark e seen"
  define c' where "c' = watermark e (seen @ ticks)"
  define A where "A = filter (\<lambda>t. datetime t < c) seen"
  have e: "0 < e" using sec(2) by (simp add: e_def)
  have s_seen: "sorted (map datetime seen)" and s_ticks: "sorted (map datetime ticks)"
    and le: "\<forall>x \<in> set seen. \<forall>y \<in> set ticks. datetime x \<le> datetime y"
    using sorted by (auto simp: sorted_append)
  have c'_eq: "c' = window_start e (datetime (last ticks))"
    using ne by (simp add: c'_def watermark_def)
  have Bc: "B = filter (\<lambda>t. c \<le> datetime t) seen" using B(2) by (simp add: c_def e_def)
  have Fc: "concat (map rows F) = window_bars e A" using F(3) by (simp add: A_def c_def e_def)
  \<comment> \<open>the buffer and the batch, one after the other, are sorted\<close>
  have "sorted (map datetime (B @ ticks))"
    using s_seen s_ticks le by (auto simp: sorted_append Bc intro: sorted_filter)
  then have combined: "sort_key datetime (B @ ticks) = B @ ticks"
    by (rule sort_key_id_if_sorted)
  have "Max (set (map datetime (B @ ticks))) = last (map datetime (B @ ticks))"
    using \<open>sorted (map datetime (B @ ticks))\<close> ne by (intro sorted_Max_last) simp_all
  also have "\<dots> = datetime (last ticks)" using ne by (simp add: last_map)
  finally have mx: "Max (set (map datetime (B @ ticks))) = datetime (last ticks)" .
  have lt: "last ticks \<in> set ticks" using ne by simp
  with whole sub have "datetime (last ticks) mod 1000000 = 0" "last ticks \<in> set run" by auto
  from configured_window [OF cf this(2,1)]
  have cut: "floor_dt_to_seconds (datetime (last ticks)) sec = Inr c'"
    by (simp add: c'_eq e_def)
  have fl: "floor_dt_to_seconds (Max (set (map datetime (sort_key datetime (B @ ticks))))) sec = Inr c'"
    unfolding combined mx by (rule cut)
  have pd: "polars_duration r = Some e" using sec(3) by (simp add: e_def)
  note eff = ingest_effect [OF B(1) F(1) sec(1) pd e ne fl, unfolded combined]
  let ?fin = "filter (\<lambda>t. datetime t < c') (B @ ticks)"
  from eff F(2) obtain d' F' where
    d': "ingest ticks d r = Inr d'" "config d' = config d"
      "buffers d' = (buffers d)(r \<mapsto> filter (\<lambda>t. c' \<le> datetime t) (B @ ticks))"
      "bars_out d' = (bars_out d)(r \<mapsto> F')"
      "concat (map rows F') = concat (map rows F) @ window_bars e ?fin"
      "list_all (\<lambda>f. schema f = bars_schema \<and> rows f \<noteq> []) F'"
    by blast
  \<comment> \<open>what is kept and what is finalized, in terms of all ticks seen\<close>
  have both: "filter (\<lambda>t. c' \<le> datetime t) (B @ ticks) =
              filter (\<lambda>t. c' \<le> datetime t) (seen @ ticks) \<and>
              window_bars e A @ window_bars e ?fin =
              window_bars e (filter (\<lambda>t. datetime t < c') (seen @ ticks))"
  proof (cases "seen = []")
    case True
    then have "B = []" "A = []" by (simp_all add: Bc A_def)
    with True show ?thesis by (simp add: window_bars_Nil)
  next
    case False
    then have c_eq: "c = window_start e (datetime (last seen))"
      by (simp add: c_def watermark_def)
    have last_le: "\<forall>y \<in> set ticks. datetime (last seen) \<le> datetime y"
      using le False by simp
    have c_le: "c \<le> datetime (last seen)"
      unfolding c_eq using e by (rule window_start_le)
    have c_ticks: "\<forall>y \<in> set ticks. c \<le> datetime y"
      using last_le c_le by auto
    have "datetime (last seen) \<le> datetime (last ticks)" using last_le ne by simp
    then have cc': "c \<le> c'"
      unfolding c_eq c'_eq using e by (intro window_start_mono)
    have kB: "filter (\<lambda>t. c' \<le> datetime t) B = filter (\<lambda>t. c' \<le> datetime t) seen"
      unfolding Bc filter_filter using cc' by (intro filter_cong) auto
    have "A @ B = seen"
      unfolding A_def Bc using s_seen by (rule sorted_filter_split)
    then have "filter (\<lambda>t. datetime t < c') seen =
               filter (\<lambda>t. datetime t < c') A @ filter (\<lambda>t. datetime t < c') B"
      by (metis filter_append)
    moreover have "filter (\<lambda>t. datetime t < c') A = A"
      unfolding A_def filter_filter using cc' by (intro filter_cong) auto
    ultimately have fin: "A @ ?fin = filter (\<lambda>t. datetime t < c') (seen @ ticks)"
      by simp
    have "\<forall>a \<in> set A. datetime a < c" by (simp add: A_def)
    moreover have "\<forall>z \<in> set ?fin. c \<le> datetime z"
      using c_ticks by (auto simp: Bc)
    moreover have "e dvd c" unfolding c_def by (rule watermark_dvd)
    ultimately have "window_bars e (A @ ?fin) = window_bars e A @ window_bars e ?fin"
      using e by (intro window_bars_append [of e c])
    then have "window_bars e A @ window_bars e ?fin = window_bars e (A @ ?fin)"
      by (rule sym)
    also have "\<dots> = window_bars e (filter (\<lambda>t. datetime t < c') (seen @ ticks))"
      by (simp only: fin)
    finally have "window_bars e A @ window_bars e ?fin =
              window_bars e (filter (\<lambda>t. datetime t < c') (seen @ ticks))" .
    moreover have "filter (\<lambda>t. c' \<le> datetime t) (B @ ticks) =
              filter (\<lambda>t. c' \<le> datetime t) (seen @ ticks)"
      using kB by simp
    ultimately show ?thesis by (intro conjI)
  qed
  then have keep: "filter (\<lambda>t. c' \<le> datetime t) (B @ ticks) =
              filter (\<lambda>t. c' \<le> datetime t) (seen @ ticks)"
   and bars: "window_bars e A @ window_bars e ?fin =
              window_bars e (filter (\<lambda>t. datetime t < c') (seen @ ticks))"
    by blast+
  have "streamed run (seen @ ticks) r (rule_secs d' r) (buffers d' r) (bars_out d' r)"
  proof -
    have "configured run r (rule_secs d' r) sec"
      using d'(2) cf by (rule configured_config)
    moreover have "buffers d' r = Some (filter (\<lambda>t. c' \<le> datetime t) (seen @ ticks))"
      using d'(3) keep by simp
    moreover have "bars_out d' r = Some F'" using d'(4) by simp
    moreover have "concat (map rows F') =
        window_bars e (filter (\<lambda>t. datetime t < c') (seen @ ticks))"
      using d'(5) Fc bars by simp
    ultimately show ?thesis
      unfolding streamed_def using d'(6)
      by (intro exI [of _ sec] exI [of _ "filter (\<lambda>t. c' \<le> datetime t) (seen @ ticks)"]
          exI [of _ F']) (simp add: c'_def e_def)
  qed
  moreover have "\<forall>r'. r' \<noteq> r \<longrightarrow> buffers d' r' = buffers d r' \<and> bars_out d' r' = bars_out d r'"
    using d'(3,4) by simp
  ultimately show ?thesis using d'(1,2) by blast
qed

lemma streamed_flush:
  fixes d :: "('t, 'p) LoopThroughFilesInputData"
  assumes st: "streamed seen seen r (rule_secs d r) (buffers d r) (bars_out d r)"
    and sorted: "sorted (map datetime seen)"
  shows "\<exists>d'. flush d r = Inr d' \<and> config d' = config d \<and>
           flushed seen r (rule_secs d' r) (buffers d' r) (bars_out d' r) \<and>
           (\<forall>r'. r' \<noteq> r \<longrightarrow> buffers d' r' = buffers d r' \<and> bars_out d' r' = bars_out d r')"
proof -
  from st obtain sec B F where
    cf: "configured seen r (rule_secs d r) sec" and
    B: "buffers d r = Some B" "B = filter (\<lambda>t. watermark (sec * 1000000) seen \<le> datetime t) seen" and
    F: "bars_out d r = Some F" "list_all (\<lambda>f. schema f = bars_schema \<and> rows f \<noteq> []) F"
       "concat (map rows F) =
          window_bars (sec * 1000000)
            (filter (\<lambda>t. datetime t < watermark (sec * 1000000) seen) seen)"
    unfolding streamed_def by blast
  from cf have sec: "rule_secs d r = Some sec" "0 < sec" "polars_duration r = Some (sec * 1000000)"
    by (simp_all add: configured_def)
  define e where "e = sec * 1000000"
  define c where "c = watermark e seen"
  define A where "A = filter (\<lambda>t. datetime t < c) seen"
  have e: "0 < e" using sec(2) by (simp add: e_def)
  have pd: "polars_duration r = Some e" using sec(3) by (simp add: e_def)
  have Bc: "B = filter (\<lambda>t. c \<le> datetime t) seen" using B(2) by (simp add: c_def e_def)
  have Fc: "concat (map rows F) = window_bars e A" using F(3) by (simp add: A_def c_def e_def)
  have sB: "sorted (map datetime B)" unfolding Bc using sorted by (rule sorted_filter)
  have AB: "A @ B = seen" unfolding A_def Bc using sorted by (rule sorted_filter_split)
  have "window_bars e (A @ B) = window_bars e A @ window_bars e B"
    using e by (intro window_bars_append [of e c]) (simp_all add: A_def Bc c_def watermark_dvd)
  then have all: "window_bars e A @ window_bars e B = window_bars e seen"
    by (simp only: AB)
  from append_bars_effect [OF pd e sB F(1)] F(2) obtain F' where
    F': "append_bars d r B = Inr (d\<lparr>bars_out := (bars_out d)(r \<mapsto> F')\<rparr>)"
      "concat (map rows F') = concat (map rows F) @ window_bars e B"
      "list_all (\<lambda>f. schema f = bars_schema \<and> rows f \<noteq> []) F'"
    by blast
  show ?thesis
  proof (cases "B = []")
    case True
    then have "flush d r = Inr d" using B(1) by (simp add: flush_def getitem_def)
    moreover have "concat (map rows F) = window_bars e seen"
      using Fc all True by (simp add: window_bars_Nil)
    then have "flushed seen r (rule_secs d r) (buffers d r) (bars_out d r)"
      unfolding flushed_def using cf F(1,2) by (intro exI [of _ sec] exI [of _ F]) (simp add: e_def)
    ultimately show ?thesis by blast
  next
    case False
    let ?d' = "d\<lparr>bars_out := (bars_out d)(r \<mapsto> F')\<rparr>"
    have "flush d r = Inr ?d'" using False B(1) F'(1) by (simp add: flush_def getitem_def)
    moreover have "config ?d' = config d" by (simp add: config_def)
    moreover have "concat (map rows F') = window_bars e seen"
      using F'(2) Fc all by simp
    then have "flushed seen r (rule_secs ?d' r) (buffers ?d' r) (bars_out ?d' r)"
      unfolding flushed_def using cf F'(3) by (intro exI [of _ sec] exI [of _ F']) (simp add: e_def)
    moreover have "\<forall>r'. r' \<noteq> r \<longrightarrow> buffers ?d' r' = buffers d r' \<and> bars_out ?d' r' = bars_out d r'"
      by simp
    ultimately show ?thesis by blast
  qed
qed

lemma while_batches_streamed:
  fixes d :: "('t, 'p) LoopThroughFilesInputData"
  assumes "distinct (rules d)"
    and "\<forall>r \<in> set (rules d). streamed run seen r (rule_secs d r) (buffers d r) (bars_out d r)"
    and "sorted (map datetime (seen @ concat (map (\<lambda>raw. clean_tick_batch strptime to_mid raw
           (symbol_filter d) (sanity_min_price d) (sanity_max_price d)) batches)))"
    and "set (concat (map (\<lambda>raw. clean_tick_batch strptime to_mid raw
           (symbol_filter d) (sanity_min_price d) (sanity_max_price d)) batches)) \<subseteq> set run"
  shows "\<exists>d'. while_batches strptime to_mid batches d = Inr d' \<and> config d' = config d \<and>
           (\<forall>r \<in> set (rules d).
              streamed run (seen @ concat (map (\<lambda>raw. clean_tick_batch strptime to_mid raw
                 (symbol_filter d) (sanity_min_price d) (sanity_max_price d)) batches))
               r (rule_secs d' r) (buffers d' r) (bars_out d' r))"
  using assms
proof (induction batches arbitrary: d seen)
  case Nil
  then show ?case by (simp add: config_def)
next
  case (Cons raw batches)
  let ?clean = "\<lambda>raw. clean_tick_batch strptime to_mid raw
           (symbol_filter d) (sanity_min_price d) (sanity_max_price d)"
  define ticks where "ticks = ?clean raw"
  define d1 where "d1 = d\<lparr>reader := batches\<rparr>"
  have cfg1: "config d1 = config d" by (simp add: d1_def config_def)
  have same1: "rule_secs d1 = rule_secs d" "buffers d1 = buffers d" "bars_out d1 = bars_out d"
    "rules d1 = rules d" "symbol_filter d1 = symbol_filter d"
    "sanity_min_price d1 = sanity_min_price d" "sanity_max_price d1 = sanity_max_price d"
    by (simp_all add: d1_def)
  have unfold: "while_batches strptime to_mid (raw # batches) d =
     (if ticks = [] then while_batches strptime to_mid batches d1
      else (case for_rules (ingest ticks) (rules d) d1 of
              Inl e \<Rightarrow> Inl e
            | Inr data2 \<Rightarrow> while_batches strptime to_mid batches data2))"
    by (simp add: ticks_def d1_def Let_def)
  have cat: "concat (map ?clean (raw # batches)) = ticks @ concat (map ?clean batches)"
    by (simp add: ticks_def)
  show ?case
  proof (cases "ticks = []")
    case True
    have p1: "distinct (rules d1)" using Cons.prems(1) by (simp add: same1)
    have p2: "\<forall>r \<in> set (rules d1). streamed run seen r (rule_secs d1 r) (buffers d1 r) (bars_out d1 r)"
      using Cons.prems(2) by (simp add: same1)
    have p3: "sorted (map datetime (seen @ concat (map (\<lambda>raw. clean_tick_batch strptime to_mid raw
           (symbol_filter d1) (sanity_min_price d1) (sanity_max_price d1)) batches)))"
      using Cons.prems(3) True unfolding cat by (simp add: same1)
    have p4: "set (concat (map (\<lambda>raw. clean_tick_batch strptime to_mid raw
           (symbol_filter d1) (sanity_min_price d1) (sanity_max_price d1)) batches)) \<subseteq> set run"
      using Cons.prems(4) True unfolding cat by (simp add: same1)
    from Cons.IH [OF p1 p2 p3 p4] obtain d' where
      "while_batches strptime to_mid batches d1 = Inr d'" "config d' = config d1"
      "\<forall>r \<in> set (rules d1).
              streamed run (seen @ concat (map (\<lambda>raw. clean_tick_batch strptime to_mid raw
                 (symbol_filter d1) (sanity_min_price d1) (sanity_max_price d1)) batches))
               r (rule_secs d' r) (buffers d' r) (bars_out d' r)"
      by blast
    then show ?thesis
      unfolding unfold cat using True cfg1 by (intro exI [of _ d']) (simp add: same1)
  next
    case False
    have s2: "sorted (map datetime (seen @ ticks))"
      using Cons.prems(3) unfolding cat by (simp add: sorted_append)
    have w2: "\<forall>t \<in> set ticks. datetime t mod 1000000 = 0"
      unfolding ticks_def using clean_tick_batch_whole by blast
    have sub2: "set ticks \<subseteq> set run"
      using Cons.prems(4) unfolding cat by simp
    have "\<exists>d2. for_rules (ingest ticks) (rules d) d1 = Inr d2 \<and> config d2 = config d1 \<and>
           (\<forall>r \<in> set (rules d). streamed run (seen @ ticks) r (rule_secs d2 r) (buffers d2 r) (bars_out d2 r)) \<and>
           (\<forall>r. r \<notin> set (rules d) \<longrightarrow> buffers d2 r = buffers d1 r \<and> bars_out d2 r = bars_out d1 r)"
    proof (rule for_rules_invariant [where P = "streamed run seen"])
      show "distinct (rules d)" by (rule Cons.prems(1))
      show "\<forall>r \<in> set (rules d). streamed run seen r (rule_secs d1 r) (buffers d1 r) (bars_out d1 r)"
        using Cons.prems(2) by (simp add: same1)
      fix d' :: "('t, 'p) LoopThroughFilesInputData" and r
      assume "streamed run seen r (rule_secs d' r) (buffers d' r) (bars_out d' r)"
      from streamed_ingest [OF this False s2 w2 sub2]
      show "\<exists>d''. ingest ticks d' r = Inr d'' \<and> config d'' = config d' \<and>
            streamed run (seen @ ticks) r (rule_secs d'' r) (buffers d'' r) (bars_out d'' r) \<and>
            (\<forall>r'. r' \<noteq> r \<longrightarrow> buffers d'' r' = buffers d' r' \<and> bars_out d'' r' = bars_out d' r')" .
    qed
    then obtain d2 where
      d2: "for_rules (ingest ticks) (rules d) d1 = Inr d2" "config d2 = config d"
        "\<forall>r \<in> set (rules d). streamed run (seen @ ticks) r (rule_secs d2 r) (buffers d2 r) (bars_out d2 r)"
      using cfg1 by auto
    have same2: "rules d2 = rules d" "symbol_filter d2 = symbol_filter d"
      "sanity_min_price d2 = sanity_min_price d" "sanity_max_price d2 = sanity_max_price d"
      using d2(2) by (simp_all add: config_def)
    have p1: "distinct (rules d2)" using Cons.prems(1) by (simp add: same2)
    have p2: "\<forall>r \<in> set (rules d2).
                streamed run (seen @ ticks) r (rule_secs d2 r) (buffers d2 r) (bars_out d2 r)"
      using d2(3) by (simp add: same2)
    have p3: "sorted (map datetime ((seen @ ticks) @ concat (map (\<lambda>raw. clean_tick_batch strptime to_mid raw
           (symbol_filter d2) (sanity_min_price d2) (sanity_max_price d2)) batches)))"
      using Cons.prems(3) unfolding cat by (simp add: same2)
    have p4: "set (concat (map (\<lambda>raw. clean_tick_batch strptime to_mid raw
           (symbol_filter d2) (sanity_min_price d2) (sanity_max_price d2)) batches)) \<subseteq> set run"
      using Cons.prems(4) unfolding cat by (simp add: same2)
    from Cons.IH [OF p1 p2 p3 p4] obtain d' where
      "while_batches strptime to_mid batches d2 = Inr d'" "config d' = config d2"
      "\<forall>r \<in> set (rules d2).
              streamed run ((seen @ ticks) @ concat (map (\<lambda>raw. clean_tick_batch strptime to_mid raw
                 (symbol_filter d2) (sanity_min_price d2) (sanity_max_price d2)) batches))
               r (rule_secs d' r) (buffers d' r) (bars_out d' r)"
      by blast
    then show ?thesis
      unfolding unfold cat using False d2(1,2) by (intro exI [of _ d']) (simp add: same2)
  qed
qed

lemma merged_rows_sorted:
  assumes "sorted_wrt (<) (map datetime W)"
  shows "sort_key datetime (unique_keep_last (sort_key datetime W)) = W"
proof -
  from assms have s: "sorted (map datetime W)" and d: "distinct (map datetime W)"
    by (simp_all add: strict_sorted_iff)
  from s have "sort_key datetime W = W" by (rule sort_key_id_if_sorted)
  moreover from d have "unique_keep_last W = W" by (rule unique_keep_last_distinct)
  ultimately show ?thesis by simp
qed

lemma concat_vertical_schema:
  "concat_vertical frames = Inr a \<Longrightarrow> list_all (\<lambda>f. schema f = sch \<and> P f) frames \<Longrightarrow>
   schema a = sch"
  by (cases frames) (auto split: if_splits)

lemma merge_data_flushed:
  assumes all: "\<forall>r \<in> set rs. flushed seen r (secs r) (buf r) (out r)"
    and sorted: "sorted (map datetime seen)"
    and r: "r \<in> set rs"
  shows "\<exists>final f sec. merge_data out rs = Inr final \<and> final r = Some f \<and>
           configured seen r (secs r) sec \<and>
           f = (if seen = [] then empty_bars
                else \<lparr>schema = bars_schema, rows = window_bars (sec * 1000000) seen\<rparr>)"
proof -
  have "\<exists>final. merge_rules out rs Map.empty = Inr final"
  proof (rule merge_rules_succeeds)
    fix r' assume "r' \<in> set rs"
    with all have "flushed seen r' (secs r') (buf r') (out r')" by blast
    then obtain F where "out r' = Some F" "list_all (\<lambda>f. schema f = bars_schema \<and> rows f \<noteq> []) F"
      unfolding flushed_def by blast
    then have "out r' = Some F \<and> list_all (\<lambda>f. schema f = schema (hd F)) F"
      by (cases F) (auto simp: list_all_iff)
    then show "\<exists>frames. out r' = Some frames \<and>
                 list_all (\<lambda>f. schema f = schema (hd frames)) frames"
      by blast
  qed
  then obtain final where final: "merge_rules out rs Map.empty = Inr final" by blast
  from all r have "flushed seen r (secs r) (buf r) (out r)" by blast
  then obtain sec F where
    cf: "configured seen r (secs r) sec" and
    F: "out r = Some F" "list_all (\<lambda>f. schema f = bars_schema \<and> rows f \<noteq> []) F"
       "concat (map rows F) = window_bars (sec * 1000000) seen"
    unfolding flushed_def by blast
  from cf have sec: "0 < sec" by (simp add: configured_def)
  let ?W = "window_bars (sec * 1000000) seen"
  have W: "sorted_wrt (<) (map datetime ?W)"
    using sec sorted by (intro bars_sorted) simp_all
  have FW: "F = [] \<longleftrightarrow> seen = []"
  proof
    assume "F = []"
    with F(3) have "?W = []" by simp
    then show "seen = []" by (simp add: window_bars_Nil_iff)
  next
    assume "seen = []"
    with F(3) have "concat (map rows F) = []" by (simp add: window_bars_Nil)
    with F(2) show "F = []" by (cases F) auto
  qed
  have "final r = Some (if seen = [] then empty_bars else \<lparr>schema = bars_schema, rows = ?W\<rparr>)"
  proof (cases "F = []")
    case True
    with merge_rules_entry [OF final r] F FW show ?thesis by simp
  next
    case False
    with merge_rules_entry [OF final r] F(1) obtain a where
      a: "concat_vertical F = Inr a"
         "final r = Some (sort_datetime
            ((sort_datetime a)\<lparr>rows := unique_keep_last (rows (sort_datetime a))\<rparr>))"
      by auto
    have "rows a = ?W" using concat_vertical_rows [OF a(1)] F(3) by simp
    then have "rows (sort_datetime
            ((sort_datetime a)\<lparr>rows := unique_keep_last (rows (sort_datetime a))\<rparr>)) = ?W"
      using merged_rows_sorted [OF W] by (simp add: sort_datetime_def)
    moreover have "schema (sort_datetime
            ((sort_datetime a)\<lparr>rows := unique_keep_last (rows (sort_datetime a))\<rparr>)) = bars_schema"
      using concat_vertical_schema [OF a(1) F(2)] by (simp add: sort_datetime_def)
    ultimately have "sort_datetime
            ((sort_datetime a)\<lparr>rows := unique_keep_last (rows (sort_datetime a))\<rparr>) =
            \<lparr>schema = bars_schema, rows = ?W\<rparr>"
      by (intro bar_frame.equality) simp_all
    with a(2) False FW show ?thesis by simp
  qed
  with final cf show ?thesis unfolding merge_data_def by blast
qed

text \<open>
  Batch-size invariance, for rule strings that are pairwise distinct. Let every
  configured rule be read by \<^const>\<open>rule_to_seconds\<close> and by Polars as the same positive
  number of seconds, one that fits Polars' duration, let every tick that the sanitizer
  makes of the batches and the start of its window be instants of a \<^verbatim>\<open>datetime\<close>, and
  let the sanitized batches, one after the other, be in timestamp order (rows may be in
  any order inside a batch). Then the loop with its final flush followed by
  \<^const>\<open>merge_data\<close> returns, for every rule, the bars that \<^const>\<open>bars_from_ticks\<close>
  makes of all ticks sorted once. The frames are equal, types included, unless there is
  no tick at all: then the run returns the empty frame that \<^const>\<open>merge_data\<close> declares,
  whose volume column is of another type.
\<close>

lemma streaming_equals_direct:
  fixes d :: "('t, 'p) LoopThroughFilesInputData"
    and strptime :: "'t \<Rightarrow> int option" and to_mid :: "'p \<Rightarrow> real option"
  defines "cleaned \<equiv> concat (map (\<lambda>raw. clean_tick_batch strptime to_mid raw
             (symbol_filter d) (sanity_min_price d) (sanity_max_price d)) (reader d))"
  assumes dist: "distinct (rules d)"
    and init: "\<forall>r \<in> set (rules d). \<exists>sec. configured cleaned r (rule_secs d r) sec \<and>
                 buffers d r = Some [] \<and> bars_out d r = Some []"
    and sorted: "sorted (map datetime cleaned)"
    and r: "r \<in> set (rules d)"
  shows "\<exists>d' final f g. loop_through_files strptime to_mid d = Inr d' \<and>
           merge_data (bars_out d') (rules d) = Inr final \<and> final r = Some f \<and>
           bars_from_ticks (sort_key datetime cleaned) r = Inr g \<and> rows f = rows g \<and>
           f = (if cleaned = [] then empty_bars else g)"
proof -
  have st0: "\<forall>r \<in> set (rules d).
      streamed cleaned [] r (rule_secs d r) (buffers d r) (bars_out d r)"
  proof
    fix r' assume "r' \<in> set (rules d)"
    with init obtain sec where "configured cleaned r' (rule_secs d r') sec"
      "buffers d r' = Some []" "bars_out d r' = Some []"
      by blast
    then show "streamed cleaned [] r' (rule_secs d r') (buffers d r') (bars_out d r')"
      unfolding streamed_def by (intro exI [of _ sec]) (simp add: window_bars_Nil)
  qed
  have s0: "sorted (map datetime ([] @ cleaned))" using sorted by simp
  have sub0: "set (concat (map (\<lambda>raw. clean_tick_batch strptime to_mid raw
             (symbol_filter d) (sanity_min_price d) (sanity_max_price d)) (reader d))) \<subseteq> set cleaned"
    by (simp add: cleaned_def)
  from while_batches_streamed [OF dist st0 s0 [unfolded cleaned_def] sub0]
  obtain d1 where
    d1: "while_batches strptime to_mid (reader d) d = Inr d1" "config d1 = config d"
      "\<forall>r \<in> set (rules d).
         streamed cleaned cleaned r (rule_secs d1 r) (buffers d1 r) (bars_out d1 r)"
    unfolding cleaned_def by auto
  have rules1: "rules d1 = rules d" using d1(2) by (simp add: config_def)
  have "\<exists>d2. for_rules flush (rules d) d1 = Inr d2 \<and> config d2 = config d1 \<and>
           (\<forall>r \<in> set (rules d). flushed cleaned r (rule_secs d2 r) (buffers d2 r) (bars_out d2 r)) \<and>
           (\<forall>r. r \<notin> set (rules d) \<longrightarrow> buffers d2 r = buffers d1 r \<and> bars_out d2 r = bars_out d1 r)"
  proof (rule for_rules_invariant [where P = "streamed cleaned cleaned"])
    show "distinct (rules d)" by (rule dist)
    show "\<forall>r \<in> set (rules d).
        streamed cleaned cleaned r (rule_secs d1 r) (buffers d1 r) (bars_out d1 r)"
      by (rule d1(3))
    fix d' :: "('t, 'p) LoopThroughFilesInputData" and r
    assume "streamed cleaned cleaned r (rule_secs d' r) (buffers d' r) (bars_out d' r)"
    from streamed_flush [OF this sorted]
    show "\<exists>d''. flush d' r = Inr d'' \<and> config d'' = config d' \<and>
            flushed cleaned r (rule_secs d'' r) (buffers d'' r) (bars_out d'' r) \<and>
            (\<forall>r'. r' \<noteq> r \<longrightarrow> buffers d'' r' = buffers d' r' \<and> bars_out d'' r' = bars_out d' r')" .
  qed
  then obtain d2 where
    d2: "for_rules flush (rules d) d1 = Inr d2"
      "\<forall>r \<in> set (rules d). flushed cleaned r (rule_secs d2 r) (buffers d2 r) (bars_out d2 r)"
    by blast
  have loop: "loop_through_files strptime to_mid d = Inr d2"
    using d1(1) d2(1) by (simp add: loop_through_files_def rules1)
  from merge_data_flushed [OF d2(2) sorted r] obtain final f sec where
    m: "merge_data (bars_out d2) (rules d) = Inr final" "final r = Some f"
       "configured cleaned r (rule_secs d2 r) sec"
       "f = (if cleaned = [] then empty_bars
             else \<lparr>schema = bars_schema, rows = window_bars (sec * 1000000) cleaned\<rparr>)"
    by blast
  from m(3) have sec: "0 < sec" "polars_duration r = Some (sec * 1000000)"
    by (simp_all add: configured_def)
  have "sort_key datetime cleaned = cleaned" using sorted by (rule sort_key_id_if_sorted)
  then have g: "bars_from_ticks (sort_key datetime cleaned) r =
             Inr \<lparr>schema = bars_schema, rows = window_bars (sec * 1000000) cleaned\<rparr>"
    using sec sorted by (simp add: bars_from_ticks_sorted)
  have "rows f = window_bars (sec * 1000000) cleaned"
    using m(4) by (simp add: empty_bars_def window_bars_Nil)
  with loop m(1,2,4) g show ?thesis by simp
qed


subsection \<open>The buffer\<close>

lemma for_rules_absorbing:
  fixes body :: "('t, 'p) LoopThroughFilesInputData \<Rightarrow> string \<Rightarrow> error + ('t, 'p) LoopThroughFilesInputData"
  assumes step: "\<And>d r. r \<in> set rs \<Longrightarrow>
       P r (rule_secs d r) (buffers d r) (bars_out d r) \<or>
       Q r (rule_secs d r) (buffers d r) (bars_out d r) \<Longrightarrow>
       \<exists>d'. body d r = Inr d' \<and> config d' = config d \<and>
            Q r (rule_secs d' r) (buffers d' r) (bars_out d' r) \<and>
            (\<forall>r'. r' \<noteq> r \<longrightarrow> buffers d' r' = buffers d r' \<and> bars_out d' r' = bars_out d r')"
    and "\<forall>r \<in> set rs. P r (rule_secs d r) (buffers d r) (bars_out d r) \<or>
                         Q r (rule_secs d r) (buffers d r) (bars_out d r)"
  shows "\<exists>d'. for_rules body rs d = Inr d' \<and> config d' = config d \<and>
           (\<forall>r \<in> set rs. Q r (rule_secs d' r) (buffers d' r) (bars_out d' r)) \<and>
           (\<forall>r. r \<notin> set rs \<longrightarrow> buffers d' r = buffers d r \<and> bars_out d' r = bars_out d r)"
  using assms
proof (induction rs arbitrary: d)
  case Nil
  then show ?case by simp
next
  case (Cons r rs)
  from Cons.prems(1) [of r d] Cons.prems(2) obtain d1 where
    d1: "body d r = Inr d1" "config d1 = config d"
      "Q r (rule_secs d1 r) (buffers d1 r) (bars_out d1 r)"
      "\<forall>r'. r' \<noteq> r \<longrightarrow> buffers d1 r' = buffers d r' \<and> bars_out d1 r' = bars_out d r'"
    by auto
  have secs: "rule_secs d1 = rule_secs d" using d1(2) by (simp add: config_def)
  have PQ1: "\<forall>r' \<in> set rs. P r' (rule_secs d1 r') (buffers d1 r') (bars_out d1 r') \<or>
                             Q r' (rule_secs d1 r') (buffers d1 r') (bars_out d1 r')"
  proof
    fix r' assume r': "r' \<in> set rs"
    show "P r' (rule_secs d1 r') (buffers d1 r') (bars_out d1 r') \<or>
          Q r' (rule_secs d1 r') (buffers d1 r') (bars_out d1 r')"
    proof (cases "r' = r")
      case True
      with d1(3) show ?thesis by simp
    next
      case False
      with d1(4) have "buffers d1 r' = buffers d r'" "bars_out d1 r' = bars_out d r'" by simp_all
      with Cons.prems(2) r' secs show ?thesis by simp
    qed
  qed
  have "\<exists>d'. for_rules body rs d1 = Inr d' \<and> config d' = config d1 \<and>
           (\<forall>r \<in> set rs. Q r (rule_secs d' r) (buffers d' r) (bars_out d' r)) \<and>
           (\<forall>r. r \<notin> set rs \<longrightarrow> buffers d' r = buffers d1 r \<and> bars_out d' r = bars_out d1 r)"
  proof (rule Cons.IH [OF _ PQ1])
    fix d' :: "('t, 'p) LoopThroughFilesInputData" and r'
    assume "r' \<in> set rs"
      "P r' (rule_secs d' r') (buffers d' r') (bars_out d' r') \<or>
       Q r' (rule_secs d' r') (buffers d' r') (bars_out d' r')"
    then show "\<exists>d''. body d' r' = Inr d'' \<and> config d'' = config d' \<and>
            Q r' (rule_secs d'' r') (buffers d'' r') (bars_out d'' r') \<and>
            (\<forall>r''. r'' \<noteq> r' \<longrightarrow> buffers d'' r'' = buffers d' r'' \<and> bars_out d'' r'' = bars_out d' r'')"
      using Cons.prems(1) [of r' d'] by simp
  qed
  then obtain d' where
    d': "for_rules body rs d1 = Inr d'" "config d' = config d1"
      "\<forall>r \<in> set rs. Q r (rule_secs d' r) (buffers d' r) (bars_out d' r)"
      "\<forall>r. r \<notin> set rs \<longrightarrow> buffers d' r = buffers d1 r \<and> bars_out d' r = bars_out d1 r"
    by blast
  have secs': "rule_secs d' = rule_secs d1" using d'(2) by (simp add: config_def)
  have "Q r (rule_secs d' r) (buffers d' r) (bars_out d' r)"
  proof (cases "r \<in> set rs")
    case True
    with d'(3) show ?thesis by blast
  next
    case False
    with d1(3) d'(4) secs' show ?thesis by simp
  qed
  moreover have "\<forall>x. x \<notin> set (r # rs) \<longrightarrow> buffers d' x = buffers d x \<and> bars_out d' x = bars_out d x"
    using d1(4) d'(4) by simp
  ultimately show ?case
    using d1(1,2) d'(1,2,3) by (intro exI [of _ d']) simp
qed

lemma buffered_seen_set:
  assumes "set (map datetime s1) = set (map datetime s2)"
  shows "buffered run s1 r secs buf out = buffered run s2 r secs buf out"
proof -
  have "set (map datetime s1) = {} \<longleftrightarrow> set (map datetime s2) = {}"
    by (simp only: assms)
  then have e: "(s1 = []) = (s2 = [])" by simp
  show ?thesis
    unfolding buffered_def e by (simp only: assms)
qed

lemma buffered_ingest:
  fixes d :: "('t, 'p) LoopThroughFilesInputData"
  assumes bf: "buffered run seen r (rule_secs d r) (buffers d r) (bars_out d r)"
    and ne: "ticks \<noteq> []"
    and whole: "\<forall>t \<in> set (seen @ ticks). datetime t mod 1000000 = 0"
    and sub: "set (seen @ ticks) \<subseteq> set run"
  shows "\<exists>d'. ingest ticks d r = Inr d' \<and> config d' = config d \<and>
           buffered run (seen @ ticks) r (rule_secs d' r) (buffers d' r) (bars_out d' r) \<and>
           (\<forall>r'. r' \<noteq> r \<longrightarrow> buffers d' r' = buffers d r' \<and> bars_out d' r' = bars_out d r')"
proof -
  from bf obtain sec B F where
    cf: "configured run r (rule_secs d r) sec" and
    B: "buffers d r = Some B" "sorted (map datetime B)" and F: "bars_out d r = Some F" and
    inv: "if seen = [] then B = []
         else B \<noteq> [] \<and> Max (set (map datetime B)) = Max (set (map datetime seen)) \<and>
              list_all (\<lambda>t. window_start (sec * 1000000) (datetime t) =
                             window_start (sec * 1000000) (Max (set (map datetime seen)))) B"
    unfolding buffered_def by blast
  from cf have sec: "rule_secs d r = Some sec" "0 < sec" "polars_duration r = Some (sec * 1000000)"
    by (simp_all add: configured_def)
  define e where "e = sec * 1000000"
  define combined where "combined = sort_key datetime (B @ ticks)"
  define latest where "latest = Max (set (map datetime (seen @ ticks)))"
  define cutoff where "cutoff = window_start e latest"
  let ?B' = "filter (\<lambda>t. cutoff \<le> datetime t) combined"
  have e: "0 < e" using sec(2) by (simp add: e_def)
  have pd: "polars_duration r = Some e" using sec(3) by (simp add: e_def)
  have set_c: "set (map datetime combined) = set (map datetime B) \<union> set (map datetime ticks)"
    by (simp add: combined_def image_Un)
  have tne: "set (map datetime ticks) \<noteq> {}" using ne by simp
  have mx: "Max (set (map datetime combined)) = latest"
  proof (cases "seen = []")
    case True
    with inv have "B = []" by simp
    with True set_c show ?thesis by (simp add: latest_def)
  next
    case False
    with inv have Bne: "set (map datetime B) \<noteq> {}"
      and mB: "Max (set (map datetime B)) = Max (set (map datetime seen))" by simp_all
    from False have sne: "set (map datetime seen) \<noteq> {}" by simp
    have "Max (set (map datetime combined)) =
          max (Max (set (map datetime B))) (Max (set (map datetime ticks)))"
      unfolding set_c using Bne tne by (intro Max_Un) simp_all
    also have "\<dots> = max (Max (set (map datetime seen))) (Max (set (map datetime ticks)))"
      by (simp only: mB)
    also have "\<dots> = Max (set (map datetime seen) \<union> set (map datetime ticks))"
      using sne tne by (intro Max_Un [symmetric]) simp_all
    finally show ?thesis by (simp add: latest_def image_Un)
  qed
  have "latest \<in> set (map datetime (seen @ ticks))"
    unfolding latest_def using ne by (intro Max_in) simp_all
  then obtain v :: tick where v: "v \<in> set (seen @ ticks)" "datetime v = latest" by auto
  with whole sub have "v \<in> set run" "datetime v mod 1000000 = 0" by auto
  from configured_window [OF cf this]
  have "floor_dt_to_seconds latest sec = Inr cutoff"
    by (simp add: v(2) cutoff_def e_def)
  then have fl: "floor_dt_to_seconds (Max (set (map datetime (sort_key datetime (B @ ticks))))) sec =
      Inr cutoff"
    using mx by (simp only: combined_def)
  from ingest_effect [OF B(1) F sec(1) pd e ne fl]
  obtain d' F' where d': "ingest ticks d r = Inr d'" "config d' = config d"
    "buffers d' = (buffers d)(r \<mapsto> ?B')" "bars_out d' = (bars_out d)(r \<mapsto> F')"
    unfolding combined_def by blast
  have s: "sorted (map datetime ?B')"
    by (intro sorted_filter) (simp add: combined_def)
  have le: "\<forall>t \<in> set combined. datetime t \<le> latest"
  proof
    fix t assume "t \<in> set combined"
    then have "datetime t \<in> set (map datetime combined)" by simp
    then have "datetime t \<le> Max (set (map datetime combined))" by (intro Max_ge) simp_all
    then show "datetime t \<le> latest" by (simp only: mx)
  qed
  have "latest \<in> set (map datetime combined)"
    unfolding mx [symmetric] using ne by (intro Max_in) (simp_all add: combined_def)
  then obtain u where u: "u \<in> set combined" "datetime u = latest" by auto
  have "cutoff \<le> latest" unfolding cutoff_def using e by (rule window_start_le)
  with u have uB: "u \<in> set ?B'" by simp
  have ne': "?B' \<noteq> []"
  proof
    assume "?B' = []"
    with uB show False by simp
  qed
  have mx': "Max (set (map datetime ?B')) = latest"
  proof (intro Max_eqI)
    show "finite (set (map datetime ?B'))" by simp
    show "latest \<in> set (map datetime ?B')" using uB u(2) by force
    fix y assume "y \<in> set (map datetime ?B')"
    then show "y \<le> latest" using le by auto
  qed
  have win: "list_all (\<lambda>t. window_start e (datetime t) = window_start e latest) ?B'"
    unfolding list_all_iff
  proof
    fix t assume t: "t \<in> set ?B'"
    then have "datetime t \<le> latest" using le by simp
    moreover have "latest < cutoff + e" unfolding cutoff_def using e by (rule window_start_gt)
    moreover have "cutoff \<le> datetime t" using t by simp
    moreover have "e dvd cutoff" unfolding cutoff_def by (rule window_start_dvd)
    ultimately have "window_start e (datetime t) = cutoff"
      using window_start_eq_iff [OF e, of cutoff "datetime t"] by simp
    then show "window_start e (datetime t) = window_start e latest" by (simp add: cutoff_def)
  qed
  have "buffered run (seen @ ticks) r (rule_secs d' r) (buffers d' r) (bars_out d' r)"
  proof -
    have "configured run r (rule_secs d' r) sec"
      using d'(2) cf by (rule configured_config)
    moreover have "buffers d' r = Some ?B'" using d'(3) by simp
    moreover have "bars_out d' r = Some F'" using d'(4) by simp
    moreover have "seen @ ticks \<noteq> []" using ne by simp
    ultimately show ?thesis
      unfolding buffered_def using s ne' mx' win
      by (intro exI [of _ sec] exI [of _ ?B'] exI [of _ F'])
         (simp add: latest_def [symmetric] e_def [symmetric] del: set_map map_append)
  qed
  moreover have "\<forall>r'. r' \<noteq> r \<longrightarrow> buffers d' r' = buffers d r' \<and> bars_out d' r' = bars_out d r'"
    using d'(3,4) by simp
  ultimately show ?thesis using d'(1,2) by blast
qed

lemma buffered_ingest_again:
  fixes d :: "('t, 'p) LoopThroughFilesInputData"
  assumes bf: "buffered run seen r (rule_secs d r) (buffers d r) (bars_out d r) \<or>
               buffered run (seen @ ticks) r (rule_secs d r) (buffers d r) (bars_out d r)"
    and ne: "ticks \<noteq> []"
    and whole: "\<forall>t \<in> set (seen @ ticks). datetime t mod 1000000 = 0"
    and sub: "set (seen @ ticks) \<subseteq> set run"
  shows "\<exists>d'. ingest ticks d r = Inr d' \<and> config d' = config d \<and>
           buffered run (seen @ ticks) r (rule_secs d' r) (buffers d' r) (bars_out d' r) \<and>
           (\<forall>r'. r' \<noteq> r \<longrightarrow> buffers d' r' = buffers d r' \<and> bars_out d' r' = bars_out d r')"
  using bf
proof
  assume "buffered run seen r (rule_secs d r) (buffers d r) (bars_out d r)"
  from buffered_ingest [OF this ne whole sub] show ?thesis .
next
  assume b: "buffered run (seen @ ticks) r (rule_secs d r) (buffers d r) (bars_out d r)"
  have w: "\<forall>t \<in> set ((seen @ ticks) @ ticks). datetime t mod 1000000 = 0"
    using whole by auto
  have s: "set ((seen @ ticks) @ ticks) \<subseteq> set run"
    using sub by auto
  have "set (map datetime ((seen @ ticks) @ ticks)) = set (map datetime (seen @ ticks))"
    by auto
  from buffered_seen_set [OF this] buffered_ingest [OF b ne w s]
  show ?thesis by simp
qed

lemma while_batches_buffered:
  fixes d :: "('t, 'p) LoopThroughFilesInputData"
  assumes "\<forall>r \<in> set (rules d). buffered run seen r (rule_secs d r) (buffers d r) (bars_out d r)"
    and "\<forall>t \<in> set seen. datetime t mod 1000000 = 0"
    and "set (seen @ concat (map (\<lambda>raw. clean_tick_batch strptime to_mid raw
           (symbol_filter d) (sanity_min_price d) (sanity_max_price d)) batches)) \<subseteq> set run"
  shows "\<exists>d'. while_batches strptime to_mid batches d = Inr d' \<and> config d' = config d \<and>
           (\<forall>r \<in> set (rules d).
              buffered run (seen @ concat (map (\<lambda>raw. clean_tick_batch strptime to_mid raw
                 (symbol_filter d) (sanity_min_price d) (sanity_max_price d)) batches))
               r (rule_secs d' r) (buffers d' r) (bars_out d' r))"
  using assms
proof (induction batches arbitrary: d seen)
  case Nil
  then show ?case by (simp add: config_def)
next
  case (Cons raw batches)
  let ?clean = "\<lambda>raw. clean_tick_batch strptime to_mid raw
           (symbol_filter d) (sanity_min_price d) (sanity_max_price d)"
  define ticks where "ticks = ?clean raw"
  define d1 where "d1 = d\<lparr>reader := batches\<rparr>"
  have cfg1: "config d1 = config d" by (simp add: d1_def config_def)
  have same1: "rule_secs d1 = rule_secs d" "buffers d1 = buffers d" "bars_out d1 = bars_out d"
    "rules d1 = rules d" "symbol_filter d1 = symbol_filter d"
    "sanity_min_price d1 = sanity_min_price d" "sanity_max_price d1 = sanity_max_price d"
    by (simp_all add: d1_def)
  have unfold: "while_batches strptime to_mid (raw # batches) d =
     (if ticks = [] then while_batches strptime to_mid batches d1
      else (case for_rules (ingest ticks) (rules d) d1 of
              Inl e \<Rightarrow> Inl e
            | Inr data2 \<Rightarrow> while_batches strptime to_mid batches data2))"
    by (simp add: ticks_def d1_def Let_def)
  have cat: "concat (map ?clean (raw # batches)) = ticks @ concat (map ?clean batches)"
    by (simp add: ticks_def)
  show ?case
  proof (cases "ticks = []")
    case True
    have p2: "\<forall>r \<in> set (rules d1). buffered run seen r (rule_secs d1 r) (buffers d1 r) (bars_out d1 r)"
      using Cons.prems(1) by (simp add: same1)
    have p3: "set (seen @ concat (map (\<lambda>raw. clean_tick_batch strptime to_mid raw
           (symbol_filter d1) (sanity_min_price d1) (sanity_max_price d1)) batches)) \<subseteq> set run"
      using Cons.prems(3) True unfolding cat by (simp add: same1)
    from Cons.IH [OF p2 Cons.prems(2) p3] obtain d' where
      "while_batches strptime to_mid batches d1 = Inr d'" "config d' = config d1"
      "\<forall>r \<in> set (rules d1).
              buffered run (seen @ concat (map (\<lambda>raw. clean_tick_batch strptime to_mid raw
                 (symbol_filter d1) (sanity_min_price d1) (sanity_max_price d1)) batches))
               r (rule_secs d' r) (buffers d' r) (bars_out d' r)"
      by blast
    then show ?thesis
      unfolding unfold cat using True cfg1 by (intro exI [of _ d']) (simp add: same1)
  next
    case False
    have wt: "\<forall>t \<in> set ticks. datetime t mod 1000000 = 0"
      unfolding ticks_def using clean_tick_batch_whole by blast
    with Cons.prems(2) have w2: "\<forall>t \<in> set (seen @ ticks). datetime t mod 1000000 = 0"
      by auto
    have sub2: "set (seen @ ticks) \<subseteq> set run"
      using Cons.prems(3) unfolding cat by simp
    have "\<exists>d2. for_rules (ingest ticks) (rules d) d1 = Inr d2 \<and> config d2 = config d1 \<and>
           (\<forall>r \<in> set (rules d). buffered run (seen @ ticks) r (rule_secs d2 r) (buffers d2 r) (bars_out d2 r)) \<and>
           (\<forall>r. r \<notin> set (rules d) \<longrightarrow> buffers d2 r = buffers d1 r \<and> bars_out d2 r = bars_out d1 r)"
    proof (rule for_rules_absorbing [where P = "buffered run seen"])
      show "\<forall>r \<in> set (rules d).
          buffered run seen r (rule_secs d1 r) (buffers d1 r) (bars_out d1 r) \<or>
          buffered run (seen @ ticks) r (rule_secs d1 r) (buffers d1 r) (bars_out d1 r)"
        using Cons.prems(1) by (simp add: same1)
      fix d' :: "('t, 'p) LoopThroughFilesInputData" and r
      assume "buffered run seen r (rule_secs d' r) (buffers d' r) (bars_out d' r) \<or>
              buffered run (seen @ ticks) r (rule_secs d' r) (buffers d' r) (bars_out d' r)"
      from buffered_ingest_again [OF this False w2 sub2]
      show "\<exists>d''. ingest ticks d' r = Inr d'' \<and> config d'' = config d' \<and>
            buffered run (seen @ ticks) r (rule_secs d'' r) (buffers d'' r) (bars_out d'' r) \<and>
            (\<forall>r'. r' \<noteq> r \<longrightarrow> buffers d'' r' = buffers d' r' \<and> bars_out d'' r' = bars_out d' r')" .
    qed
    then obtain d2 where
      d2: "for_rules (ingest ticks) (rules d) d1 = Inr d2" "config d2 = config d"
        "\<forall>r \<in> set (rules d). buffered run (seen @ ticks) r (rule_secs d2 r) (buffers d2 r) (bars_out d2 r)"
      using cfg1 by auto
    have same2: "rules d2 = rules d" "symbol_filter d2 = symbol_filter d"
      "sanity_min_price d2 = sanity_min_price d" "sanity_max_price d2 = sanity_max_price d"
      using d2(2) by (simp_all add: config_def)
    have p2: "\<forall>r \<in> set (rules d2).
                buffered run (seen @ ticks) r (rule_secs d2 r) (buffers d2 r) (bars_out d2 r)"
      using d2(3) by (simp add: same2)
    have p3: "set ((seen @ ticks) @ concat (map (\<lambda>raw. clean_tick_batch strptime to_mid raw
           (symbol_filter d2) (sanity_min_price d2) (sanity_max_price d2)) batches)) \<subseteq> set run"
      using Cons.prems(3) unfolding cat by (simp add: same2)
    from Cons.IH [OF p2 w2 p3] obtain d' where
      "while_batches strptime to_mid batches d2 = Inr d'" "config d' = config d2"
      "\<forall>r \<in> set (rules d2).
              buffered run ((seen @ ticks) @ concat (map (\<lambda>raw. clean_tick_batch strptime to_mid raw
                 (symbol_filter d2) (sanity_min_price d2) (sanity_max_price d2)) batches))
               r (rule_secs d' r) (buffers d' r) (bars_out d' r)"
      by blast
    then show ?thesis
      unfolding unfold cat using False d2(1,2) by (intro exI [of _ d']) (simp add: same2)
  qed
qed

lemma loop_input_seen:
  "concat (map (\<lambda>raw. clean_tick_batch Some Some raw (Some ''NQH0'') None None)
     (map canonical_batch [[(1583139600, 100), (1583139659, 101)], [(1583139661, 99)]])) =
   [\<lparr>datetime = 1583139600000000, mid = 100\<rparr>, \<lparr>datetime = 1583139659000000, mid = 101\<rparr>,
    \<lparr>datetime = 1583139661000000, mid = 99\<rparr>]"
  by (simp add: canonical_batch_def clean_tick_batch_def sanity_check_tick_data_def
      drop_nulls_datetime_mid_def List.map_filter_def)

text \<open>
  Claim C5. Let every configured rule be read by \<^const>\<open>rule_to_seconds\<close> and by Polars as
  the same positive number of seconds, one that fits Polars' duration, and let the
  run start with empty buffers. Let \<open>seen\<close> be the ticks that the sanitizer makes of
  the batches handed out so far, in any order, each of them and the start of its window
  an instant of a \<^verbatim>\<open>datetime\<close>. Then the loop over these batches returns, and for every
  rule the buffer is sorted by timestamp, holds a tick when a tick was seen, and each of
  its ticks lies from the watermark on, the start of the window of the latest tick
  seen, and not after that tick: in the one window that holds the maximum timestamp
  processed. The rules need not be distinct. The state after each single ingest is
  the subject of \<open>buffered_ingest_again\<close>.
\<close>

theorem buffer_invariant:
  fixes d :: "('t, 'p) LoopThroughFilesInputData"
    and strptime :: "'t \<Rightarrow> int option" and to_mid :: "'p \<Rightarrow> real option"
    and batches :: "('t, 'p) raw_frame list"
  defines "seen \<equiv> concat (map (\<lambda>raw. clean_tick_batch strptime to_mid raw
             (symbol_filter d) (sanity_min_price d) (sanity_max_price d)) batches)"
  assumes init: "\<forall>r \<in> set (rules d). \<exists>sec. configured seen r (rule_secs d r) sec \<and>
                 buffers d r = Some [] \<and> bars_out d r = Some []"
    and r: "r \<in> set (rules d)"
  shows "\<exists>d' B sec. while_batches strptime to_mid batches d = Inr d' \<and>
           rule_secs d r = Some sec \<and> buffers d' r = Some B \<and>
           sorted (map datetime B) \<and> (seen \<noteq> [] \<longrightarrow> B \<noteq> []) \<and>
           (\<forall>t \<in> set B.
              window_start (sec * 1000000) (Max (set (map datetime seen))) \<le> datetime t \<and>
              datetime t \<le> Max (set (map datetime seen)))"
proof -
  have b0: "\<forall>r \<in> set (rules d). buffered seen [] r (rule_secs d r) (buffers d r) (bars_out d r)"
  proof
    fix r' assume "r' \<in> set (rules d)"
    with init obtain sec where "configured seen r' (rule_secs d r') sec"
      "buffers d r' = Some []" "bars_out d r' = Some []"
      by blast
    then show "buffered seen [] r' (rule_secs d r') (buffers d r') (bars_out d r')"
      unfolding buffered_def by (intro exI [of _ sec]) simp
  qed
  have w0: "\<forall>t \<in> set ([] :: tick list). datetime t mod 1000000 = 0" by simp
  have sub0: "set ([] @ concat (map (\<lambda>raw. clean_tick_batch strptime to_mid raw
             (symbol_filter d) (sanity_min_price d) (sanity_max_price d)) batches)) \<subseteq> set seen"
    by (simp add: seen_def)
  from while_batches_buffered [OF b0 w0 sub0]
  obtain d' where
    d': "while_batches strptime to_mid batches d = Inr d'" "config d' = config d"
      "\<forall>r \<in> set (rules d). buffered seen seen r (rule_secs d' r) (buffers d' r) (bars_out d' r)"
    unfolding seen_def by auto
  have secs: "rule_secs d' r = rule_secs d r" using d'(2) by (simp add: config_def)
  from d'(3) r have "buffered seen seen r (rule_secs d r) (buffers d' r) (bars_out d' r)"
    unfolding secs [symmetric] by blast
  then obtain sec B where
    cf: "configured seen r (rule_secs d r) sec" and
    B: "buffers d' r = Some B" "sorted (map datetime B)" and
    inv: "if seen = [] then B = []
         else B \<noteq> [] \<and> Max (set (map datetime B)) = Max (set (map datetime seen)) \<and>
              list_all (\<lambda>t. window_start (sec * 1000000) (datetime t) =
                             window_start (sec * 1000000) (Max (set (map datetime seen)))) B"
    unfolding buffered_def by blast
  from cf have sec: "rule_secs d r = Some sec" "0 < sec" by (simp_all add: configured_def)
  have "window_start (sec * 1000000) (Max (set (map datetime seen))) \<le> datetime t \<and>
        datetime t \<le> Max (set (map datetime seen))" if t: "t \<in> set B" for t
  proof -
    from t inv have ne: "seen \<noteq> []" and mx: "Max (set (map datetime B)) = Max (set (map datetime seen))"
      and w: "window_start (sec * 1000000) (datetime t) =
              window_start (sec * 1000000) (Max (set (map datetime seen)))"
      by (auto simp: list_all_iff split: if_splits)
    have "window_start (sec * 1000000) (datetime t) \<le> datetime t"
      using sec(2) by (intro window_start_le) simp
    moreover have "datetime t \<le> Max (set (map datetime B))"
      using t by (intro Max_ge) simp_all
    ultimately show ?thesis using w mx by simp
  qed
  moreover have "seen \<noteq> [] \<longrightarrow> B \<noteq> []" using inv by simp
  ultimately show ?thesis using d'(1) sec(1) B by blast
qed

theorem buffer_invariant_witness:
  "configured
     [\<lparr>datetime = 1583139600000000, mid = 100\<rparr>, \<lparr>datetime = 1583139659000000, mid = 101\<rparr>,
      \<lparr>datetime = 1583139661000000, mid = 99\<rparr>] ''60s'' (Some 60) 60 \<and>
   (\<exists>d' B. while_batches Some Some
        (map canonical_batch [[(1583139600, 100), (1583139659, 101)], [(1583139661, 99)]])
        (loop_input [] ''60s'' 60) = Inr d' \<and>
      buffers d' ''60s'' = Some B \<and> B \<noteq> [] \<and> sorted (map datetime B) \<and>
      list_all (\<lambda>t. 1583139660000000 \<le> datetime t \<and> datetime t \<le> 1583139661000000) B)"
proof -
  let ?seen = "[\<lparr>datetime = 1583139600000000, mid = 100\<rparr>, \<lparr>datetime = 1583139659000000, mid = 101\<rparr>,
      \<lparr>datetime = 1583139661000000, mid = 99\<rparr>]"
  let ?d = "loop_input [] ''60s'' 60 :: (int, real) LoopThroughFilesInputData"
  let ?batches = "map canonical_batch [[(1583139600, 100), (1583139659, 101)], [(1583139661, 99)]]"
  have cf: "configured ?seen ''60s'' (Some 60) 60"
    by (simp add: configured_def fits_duration_def polars_duration_def is_digit_def
        int_of_digits_def digit_val_def is_datetime_def datetime_min_def datetime_max_def
        window_start_def)
  have seen: "concat (map (\<lambda>raw. clean_tick_batch Some Some raw
             (symbol_filter ?d) (sanity_min_price ?d) (sanity_max_price ?d)) ?batches) = ?seen"
    using loop_input_seen by (simp add: loop_input_def)
  have init: "\<forall>r \<in> set (rules ?d). \<exists>sec.
      configured (concat (map (\<lambda>raw. clean_tick_batch Some Some raw
             (symbol_filter ?d) (sanity_min_price ?d) (sanity_max_price ?d)) ?batches))
        r (rule_secs ?d r) sec \<and>
      buffers ?d r = Some [] \<and> bars_out ?d r = Some []"
    unfolding seen using cf by (auto simp: loop_input_def)
  have r: "''60s'' \<in> set (rules ?d)" by (simp add: loop_input_def)
  from buffer_invariant [OF init r, unfolded seen]
  obtain d' B sec where
    run: "while_batches Some Some ?batches ?d = Inr d'" "rule_secs ?d ''60s'' = Some sec"
      "buffers d' ''60s'' = Some B" "sorted (map datetime B)" "B \<noteq> []"
      "\<forall>t \<in> set B. window_start (sec * 1000000) (Max (set (map datetime ?seen))) \<le> datetime t \<and>
                    datetime t \<le> Max (set (map datetime ?seen))"
    by auto
  from run(2) have "sec = 60" by (simp add: loop_input_def)
  moreover have "Max (set (map datetime ?seen)) = 1583139661000000" by simp
  moreover have "window_start 60000000 1583139661000000 = 1583139660000000"
    by (simp add: window_start_def)
  ultimately have "list_all (\<lambda>t. 1583139660000000 \<le> datetime t \<and> datetime t \<le> 1583139661000000) B"
    using run(6) by (simp add: list_all_iff)
  with cf run(1,3,4,5) show ?thesis by blast
qed

subsection \<open>The example of the specification\<close>

lemma polars_duration_60s: "polars_duration ''60s'' = Some (60 * 1000000)"
  by (simp add: polars_duration_def is_digit_def int_of_digits_def digit_val_def)

lemma window_start_day:
  "window_start 60000000 (day * 86400000000 + x) = day * 86400000000 + window_start 60000000 x"
proof -
  have "day * 86400000000 + x = x + (day * 1440) * 60000000" by simp
  then have "(day * 86400000000 + x) div 60000000 = x div 60000000 + day * 1440"
    by (simp only: div_mult_self1)
  then show ?thesis by (simp add: window_start_def algebra_simps)
qed

lemma whole_second_day:
  "whole_second (day * 86400000000 + x) = day * 86400 + x div 1000000"
proof -
  have "day * 86400000000 + x = x + (day * 86400) * 1000000" by simp
  then have "(day * 86400000000 + x) div 1000000 = x div 1000000 + day * 86400"
    by (simp only: div_mult_self1)
  then show ?thesis by (simp add: whole_second_def)
qed

lemma four_ticks_read:
  "four_ticks day =
     [\<lparr>datetime = day * 86400000000 + 32400000000, mid = 100\<rparr>,
      \<lparr>datetime = day * 86400000000 + 32400000000, mid = 101\<rparr>,
      \<lparr>datetime = day * 86400000000 + 32401000000, mid = 99.5\<rparr>,
      \<lparr>datetime = day * 86400000000 + 32465000000, mid = 102\<rparr>]"
  by (simp add: four_ticks_def example_rows_def whole_second_day ring_distribs)

lemma window_start_four_ticks:
  "window_start 60000000 (day * 86400000000 + 32400000000) = day * 86400000000 + 32400000000"
  "window_start 60000000 (day * 86400000000 + 32401000000) = day * 86400000000 + 32400000000"
  "window_start 60000000 (day * 86400000000 + 32465000000) = day * 86400000000 + 32460000000"
  unfolding window_start_day by (simp_all add: window_start_def)

lemma window_bars_four_ticks: "window_bars 60000000 (four_ticks day) = two_bars day"
  by (simp add: window_bars_def four_ticks_read two_bars_def window_start_four_ticks
      List.map_filter_def Let_def)

lemma configured_four_ticks:
  assumes "- 719162 \<le> day" and "day \<le> 2932896"
  shows "configured (four_ticks day) ''60s'' (Some 60) 60"
proof -
  have "is_datetime (day * 86400000000 + x)" if "0 \<le> x" "x < 86400000000" for x
    using assms that by (simp add: is_datetime_def datetime_min_def datetime_max_def)
  then show ?thesis
    using polars_duration_60s
    by (simp add: configured_def fits_duration_def four_ticks_read window_start_four_ticks)
qed

text \<open>
  Claim C2. The sanitizer reads a timestamp by a format without a fraction of a second,
  so the four rows of the example reach the loop at 09:00:00, 09:00:00, 09:00:01 and
  09:01:05, in the order of the rows. For the single rule 60s, on any day of the
  years 1 to 9999, whenever the sanitized batches of the reader are, one after the
  other, these four ticks, the loop with its final flush followed by
  \<^const>\<open>merge_data\<close> returns for 60s exactly the two bars of the example, in a frame of
  the types of \<^const>\<open>bars_from_ticks\<close>. This covers every splitting of the four rows
  into batches and rows that the sanitizer drops; the first bar opens at 100 because the
  first two rows, read at the same second, keep their order.
\<close>

theorem four_ticks_two_bars:
  fixes d :: "('t, 'p) LoopThroughFilesInputData"
  assumes "rules d = [''60s'']" and "rule_secs d ''60s'' = Some 60"
    and "buffers d ''60s'' = Some []" and "bars_out d ''60s'' = Some []"
    and "- 719162 \<le> day" and "day \<le> 2932896"
    and "concat (map (\<lambda>raw. clean_tick_batch strptime to_mid raw
           (symbol_filter d) (sanity_min_price d) (sanity_max_price d)) (reader d)) = four_ticks day"
  shows "\<exists>d' final. loop_through_files strptime to_mid d = Inr d' \<and>
           merge_data (bars_out d') [''60s''] = Inr final \<and>
           final ''60s'' = Some \<lparr>schema = bars_schema, rows = two_bars day\<rparr>"
proof -
  have s: "sorted (map datetime (four_ticks day))"
    by (simp add: four_ticks_read)
  have ne: "four_ticks day \<noteq> []"
    by (simp add: four_ticks_read)
  have init: "\<forall>r \<in> set (rules d). \<exists>sec.
      configured (concat (map (\<lambda>raw. clean_tick_batch strptime to_mid raw
           (symbol_filter d) (sanity_min_price d) (sanity_max_price d)) (reader d)))
        r (rule_secs d r) sec \<and>
      buffers d r = Some [] \<and> bars_out d r = Some []"
    unfolding assms(7) using assms(1-4) configured_four_ticks [OF assms(5,6)] by auto
  have "\<exists>d' final f g. loop_through_files strptime to_mid d = Inr d' \<and>
           merge_data (bars_out d') (rules d) = Inr final \<and> final ''60s'' = Some f \<and>
           bars_from_ticks (sort_key datetime (concat (map (\<lambda>raw. clean_tick_batch strptime to_mid raw
           (symbol_filter d) (sanity_min_price d) (sanity_max_price d)) (reader d)))) ''60s'' = Inr g \<and>
           rows f = rows g \<and>
           f = (if concat (map (\<lambda>raw. clean_tick_batch strptime to_mid raw
           (symbol_filter d) (sanity_min_price d) (sanity_max_price d)) (reader d)) = []
                then empty_bars else g)"
    by (rule streaming_equals_direct [OF _ init]) (simp_all add: assms(1,7) s)
  then obtain d' final f g where
    r: "loop_through_files strptime to_mid d = Inr d'"
       "merge_data (bars_out d') [''60s''] = Inr final" "final ''60s'' = Some f"
       "bars_from_ticks (sort_key datetime (four_ticks day)) ''60s'' = Inr g"
       "f = (if four_ticks day = [] then empty_bars else g)"
    unfolding assms(1,7) by blast
  have "sort_key datetime (four_ticks day) = four_ticks day"
    using s by (rule sort_key_id_if_sorted)
  then have "bars_from_ticks (sort_key datetime (four_ticks day)) ''60s'' =
               Inr \<lparr>schema = bars_schema, rows = two_bars day\<rparr>"
    using bars_from_ticks_sorted [OF polars_duration_60s _ s] by (simp add: window_bars_four_ticks)
  with r(4) have "g = \<lparr>schema = bars_schema, rows = two_bars day\<rparr>" by simp
  with r(5) ne have "f = \<lparr>schema = bars_schema, rows = two_bars day\<rparr>" by simp
  with r(1,2,3) show ?thesis by blast
qed

theorem four_ticks_two_bars_witness:
  "\<exists>d' final.
     loop_through_files Some Some
       (loop_input [[(1704186000, 100), (1704186000, 101)],
                    [(1704186001, 99.5), (1704186065, 102)]] ''60s'' 60) = Inr d' \<and>
     merge_data (bars_out d') [''60s''] = Inr final \<and>
     final ''60s'' =
       Some \<lparr>schema = bars_schema,
             rows = [\<lparr>datetime = 1704186000000000, open = 100, high = 101, low = 99.5,
                      close = 99.5, volume = 3\<rparr>,
                     \<lparr>datetime = 1704186060000000, open = 102, high = 102, low = 102,
                      close = 102, volume = 1\<rparr>]\<rparr>"
proof -
  let ?d = "loop_input [[(1704186000, 100), (1704186000, 101)],
                    [(1704186001, 99.5), (1704186065, 102)]] ''60s'' 60"
  have c: "concat (map (\<lambda>raw. clean_tick_batch Some Some raw
           (symbol_filter ?d) (sanity_min_price ?d) (sanity_max_price ?d)) (reader ?d)) = four_ticks 19724"
    by (simp add: loop_input_def canonical_batch_def clean_tick_batch_def sanity_check_tick_data_def
        drop_nulls_datetime_mid_def List.map_filter_def four_ticks_def example_rows_def
        whole_second_def)
  have "\<exists>d' final. loop_through_files Some Some ?d = Inr d' \<and>
           merge_data (bars_out d') [''60s''] = Inr final \<and>
           final ''60s'' = Some \<lparr>schema = bars_schema, rows = two_bars 19724\<rparr>"
    by (rule four_ticks_two_bars [OF _ _ _ _ _ _ c]) (simp_all add: loop_input_def)
  then show ?thesis by (simp add: two_bars_def)
qed

end
